theory Spec2Isabelle
  imports Main "HOL-Library.Sublist"
begin

section \<open>JavaScript strings\<close>

text \<open>
  A JavaScript string is modelled as a \<^typ>\<open>string\<close>: one \<^typ>\<open>char\<close> per UTF-16 code
  unit, restricted to the code units below 256. The functions of this section are the
  built-ins of \<open>String.prototype\<close> that the route and the page call, written from the
  ECMAScript definition of each.
\<close>

definition isWhiteSpace :: "char \<Rightarrow> bool" where
  \<comment> \<open>WhiteSpace and LineTerminator of ECMAScript below 256: what \<open>trim\<close> removes and
      what \<open>\s\<close> matches.\<close>
  "isWhiteSpace c =
     (c \<in> set [CHR 0x09, CHR 0x0A, CHR 0x0B, CHR 0x0C, CHR 0x0D, CHR 0x20, CHR 0xA0])"

definition trimStart :: "string \<Rightarrow> string" where
  "trimStart s = dropWhile isWhiteSpace s"

definition trimEnd :: "string \<Rightarrow> string" where
  "trimEnd s = rev (dropWhile isWhiteSpace (rev s))"

definition trim :: "string \<Rightarrow> string" where
  "trim s = trimEnd (trimStart s)"

fun startsWith :: "string \<Rightarrow> string \<Rightarrow> bool" where
  \<comment> \<open>\<open>s.startsWith(p)\<close>\<close>
  "startsWith s [] = True"
| "startsWith [] (p # ps) = False"
| "startsWith (c # cs) (p # ps) = (c = p \<and> startsWith cs ps)"

fun str_includes :: "string \<Rightarrow> string \<Rightarrow> bool" where
  \<comment> \<open>\<open>s.includes(sep)\<close>\<close>
  "str_includes [] sep = (sep = [])"
| "str_includes (c # cs) sep = (startsWith (c # cs) sep \<or> str_includes cs sep)"

text \<open>
  \<open>s.split(sep)\<close> for a non-empty separator: the pieces between the occurrences of
  \<open>sep\<close>, scanning from the left. \<open>skip\<close> counts the characters of a separator
  just matched that are still to be passed over; \<open>cur\<close> is the piece being read, reversed.
\<close>

fun split_scan :: "string \<Rightarrow> nat \<Rightarrow> string \<Rightarrow> string \<Rightarrow> string list" where
  "split_scan sep skip cur [] = [rev cur]"
| "split_scan sep (Suc k) cur (c # cs) = split_scan sep k cur cs"
| "split_scan sep 0 cur (c # cs) =
     (if startsWith (c # cs) sep
      then rev cur # split_scan sep (length sep - 1) [] cs
      else split_scan sep 0 (c # cur) cs)"

definition str_split :: "string \<Rightarrow> string \<Rightarrow> nat \<Rightarrow> string list" where
  \<comment> \<open>\<open>s.split(sep, limit)\<close>: at most \<open>limit\<close> pieces; what follows them is dropped.\<close>
  "str_split s sep limit = take limit (split_scan sep 0 [] s)"

definition toUpperCase :: "char \<Rightarrow> char" where
  \<comment> \<open>on the letters a to z; the patterns below hold no other letters\<close>
  "toUpperCase c =
     (case map_of (zip ''abcdefghijklmnopqrstuvwxyz'' ''ABCDEFGHIJKLMNOPQRSTUVWXYZ'') c of
        Some u \<Rightarrow> u
      | None \<Rightarrow> c)"

fun startsWith_i :: "string \<Rightarrow> string \<Rightarrow> bool" where
  \<comment> \<open>a literal pattern matched at the start of \<open>s\<close> under the flag \<open>i\<close>\<close>
  "startsWith_i s [] = True"
| "startsWith_i [] (p # ps) = False"
| "startsWith_i (c # cs) (p # ps) = (toUpperCase c = toUpperCase p \<and> startsWith_i cs ps)"

definition replace_head :: "bool \<Rightarrow> string \<Rightarrow> string \<Rightarrow> string" where
  \<comment> \<open>\<open>s.replace(/^lit\s*/, "")\<close>, with the flag \<open>i\<close> when \<open>ci\<close> holds\<close>
  "replace_head ci lit s =
     (if (if ci then startsWith_i s lit else startsWith s lit)
      then dropWhile isWhiteSpace (drop (length lit) s)
      else s)"

definition replace_tail :: "bool \<Rightarrow> string \<Rightarrow> string \<Rightarrow> string" where
  \<comment> \<open>\<open>s.replace(/\s*lit$/, "")\<close>: the leftmost match takes all the white space before
      the final \<open>lit\<close>\<close>
  "replace_tail ci lit s =
     (if (if ci then startsWith_i (rev s) (rev lit) else startsWith (rev s) (rev lit))
      then rev (dropWhile isWhiteSpace (drop (length lit) (rev s)))
      else s)"

section \<open>JSON values\<close>

text \<open>
  The values that \<open>JSON.parse\<close> returns. A number keeps the numeral it was read from:
  no claim depends on the double it denotes. An object is the list of its properties in
  insertion order, each key once.
\<close>

datatype json =
    JNull
  | JBool bool
  | JNum string
  | JStr string
  | JArr "json list"
  | JObj "(string \<times> json) list"

datatype js_error = SyntaxError | TypeError

fun prop_set :: "string \<Rightarrow> json \<Rightarrow> (string \<times> json) list \<Rightarrow> (string \<times> json) list" where
  \<comment> \<open>defining a property: a key already there keeps its place and takes the new value\<close>
  "prop_set k v [] = [(k, v)]"
| "prop_set k v ((k', v') # kvs) =
     (if k' = k then (k, v) # kvs else (k', v') # prop_set k v kvs)"

fun get_prop :: "json \<Rightarrow> string \<Rightarrow> json option" where
  \<comment> \<open>\<open>v.key\<close> on a value that is not null, for the keys this program reads; \<open>None\<close> is
      \<open>undefined\<close>\<close>
  "get_prop (JObj kvs) k = map_of kvs k"
| "get_prop v k = None"

definition is_digit :: "char \<Rightarrow> bool" where
  "is_digit c = (c \<in> set ''0123456789'')"

fun nonzero_numeral :: "string \<Rightarrow> bool" where
  \<comment> \<open>some digit of the mantissa is not 0\<close>
  "nonzero_numeral [] = False"
| "nonzero_numeral (c # cs) =
     (if c = CHR ''e'' \<or> c = CHR ''E'' then False
      else if c \<in> set ''123456789'' then True
      else nonzero_numeral cs)"

fun truthy :: "json \<Rightarrow> bool" where
  \<comment> \<open>ToBoolean\<close>
  "truthy JNull = False"
| "truthy (JBool b) = b"
| "truthy (JNum n) = nonzero_numeral n"
| "truthy (JStr s) = (s \<noteq> [])"
| "truthy (JArr xs) = True"
| "truthy (JObj kvs) = True"

definition truthy_opt :: "json option \<Rightarrow> bool" where
  \<comment> \<open>ToBoolean of a property that may be \<open>undefined\<close>\<close>
  "truthy_opt v = (case v of None \<Rightarrow> False | Some x \<Rightarrow> truthy x)"

subsection \<open>JSON.parse\<close>

datatype token =
    TLBracket | TRBracket | TLBrace | TRBrace | TComma | TColon
  | TTrue | TFalse | TNull
  | TString string
  | TNumber string

definition json_ws :: "char \<Rightarrow> bool" where
  "json_ws c = (c \<in> set [CHR 0x09, CHR 0x0A, CHR 0x0D, CHR 0x20])"

definition is_num_char :: "char \<Rightarrow> bool" where
  "is_num_char c = (c \<in> set ''0123456789+-.eE'')"

definition is_word_char :: "char \<Rightarrow> bool" where
  "is_word_char c = (c \<in> set ''abcdefghijklmnopqrstuvwxyz'')"

definition all_digits1 :: "string \<Rightarrow> bool" where
  \<comment> \<open>one digit or more, and nothing else\<close>
  "all_digits1 s = (s \<noteq> [] \<and> list_all is_digit s)"

definition valid_exp :: "string \<Rightarrow> bool" where
  "valid_exp s =
     (case s of
        [] \<Rightarrow> True
      | c # r \<Rightarrow>
          (c = CHR ''e'' \<or> c = CHR ''E'') \<and>
          (case r of
             [] \<Rightarrow> False
           | d # r' \<Rightarrow> if d = CHR ''+'' \<or> d = CHR ''-'' then all_digits1 r' else all_digits1 r))"

definition valid_frac :: "string \<Rightarrow> bool" where
  "valid_frac s =
     (case s of
        [] \<Rightarrow> True
      | c # r \<Rightarrow>
          if c = CHR ''.''
          then takeWhile is_digit r \<noteq> [] \<and> valid_exp (dropWhile is_digit r)
          else valid_exp s)"

definition valid_int :: "string \<Rightarrow> bool" where
  "valid_int s =
     (case s of
        [] \<Rightarrow> False
      | c # r \<Rightarrow>
          if c = CHR ''0'' then valid_frac r
          else is_digit c \<and> valid_frac (dropWhile is_digit r))"

definition valid_number :: "string \<Rightarrow> bool" where
  \<comment> \<open>the JSON numeral: \<open>-?(0|[1-9][0-9]*)(\.[0-9]+)?([eE][+-]?[0-9]+)?\<close>\<close>
  "valid_number s = (case s of [] \<Rightarrow> False | c # r \<Rightarrow> if c = CHR ''-'' then valid_int r else valid_int s)"

definition hex_val :: "char \<Rightarrow> nat option" where
  "hex_val c = map_of (zip ''0123456789abcdefABCDEF''
     [0, 1, 2, 3, 4, 5, 6, 7, 8, 9, 10, 11, 12, 13, 14, 15, 10, 11, 12, 13, 14, 15]) c"

definition unicode_escape :: "char \<Rightarrow> char \<Rightarrow> char \<Rightarrow> char \<Rightarrow> char option" where
  \<comment> \<open>\<open>\uXXXX\<close>; a code unit of 256 or more is outside the strings modelled here\<close>
  "unicode_escape a b c d =
     (case (hex_val a, hex_val b, hex_val c, hex_val d) of
        (Some 0, Some 0, Some h, Some l) \<Rightarrow> Some (char_of (16 * h + l))
      | _ \<Rightarrow> None)"

definition simple_escape :: "char \<Rightarrow> char option" where
  "simple_escape e = map_of
     [(CHR 0x22, CHR 0x22), (CHR 0x5C, CHR 0x5C), (CHR ''/'', CHR ''/''),
      (CHR ''b'', CHR 0x08), (CHR ''f'', CHR 0x0C), (CHR ''n'', CHR 0x0A),
      (CHR ''r'', CHR 0x0D), (CHR ''t'', CHR 0x09)] e"

definition is_control :: "char \<Rightarrow> bool" where
  "is_control c = ((of_char c :: nat) < 32)"

definition word_token :: "string \<Rightarrow> token option" where
  "word_token w =
     (if w = ''true'' then Some TTrue
      else if w = ''false'' then Some TFalse
      else if w = ''null'' then Some TNull
      else None)"

definition punct_token :: "char \<Rightarrow> token option" where
  "punct_token c = map_of
     [(CHR ''['', TLBracket), (CHR '']'', TRBracket), (CHR ''{'', TLBrace),
      (CHR ''}'', TRBrace), (CHR '','', TComma), (CHR '':'', TColon)] c"

definition emit :: "token option \<Rightarrow> token list option \<Rightarrow> token list option" where
  "emit t rest =
     (case t of None \<Rightarrow> None | Some x \<Rightarrow> (case rest of None \<Rightarrow> None | Some ts \<Rightarrow> Some (x # ts)))"

text \<open>
  The lexer reads the text one character at a time. \<open>lex_str\<close>, \<open>lex_num\<close> and
  \<open>lex_word\<close> hold the characters of the string, numeral or literal being read, reversed.
\<close>

fun lex :: "string \<Rightarrow> token list option"
  and lex_str :: "string \<Rightarrow> string \<Rightarrow> token list option"
  and lex_num :: "string \<Rightarrow> string \<Rightarrow> token list option"
  and lex_word :: "string \<Rightarrow> string \<Rightarrow> token list option"
where
  "lex [] = Some []"
| "lex (c # cs) =
     (if json_ws c then lex cs
      else if c = CHR 0x22 then lex_str [] cs
      else if c = CHR ''-'' \<or> is_digit c then lex_num [c] cs
      else if is_word_char c then lex_word [c] cs
      else emit (punct_token c) (lex cs))"
| "lex_str acc [] = None"
| "lex_str acc (c # cs) =
     (if c = CHR 0x22 then emit (Some (TString (rev acc))) (lex cs)
      else if c = CHR 0x5C then
        (case cs of
           [] \<Rightarrow> None
         | e # es \<Rightarrow>
             if e = CHR ''u'' then
               (case es of
                  a # b # c' # d # r \<Rightarrow>
                    (case unicode_escape a b c' d of
                       None \<Rightarrow> None
                     | Some u \<Rightarrow> lex_str (u # acc) r)
                | _ \<Rightarrow> None)
             else
               (case simple_escape e of
                  None \<Rightarrow> None
                | Some u \<Rightarrow> lex_str (u # acc) es))
      else if is_control c then None
      else lex_str (c # acc) cs)"
| "lex_num acc [] = (if valid_number (rev acc) then Some [TNumber (rev acc)] else None)"
| "lex_num acc (c # cs) =
     (if is_num_char c then lex_num (c # acc) cs
      else if \<not> valid_number (rev acc) then None
      else if json_ws c then emit (Some (TNumber (rev acc))) (lex cs)
      else emit (Some (TNumber (rev acc))) (emit (punct_token c) (lex cs)))"
| "lex_word acc [] = emit (word_token (rev acc)) (Some [])"
| "lex_word acc (c # cs) =
     (if is_word_char c then lex_word (c # acc) cs
      else if json_ws c then emit (word_token (rev acc)) (lex cs)
      else emit (word_token (rev acc)) (emit (punct_token c) (lex cs)))"

text \<open>
  The parser reads the tokens from the left with a stack of the arrays and objects still
  open. \<open>parse_value\<close> expects a value; \<open>parse_after\<close> has just completed the value
  \<open>v\<close> and expects what may follow it inside the innermost open frame.
\<close>

datatype frame =
    FArr "json list"
  | FObj "(string \<times> json) list" string

fun parse_value :: "frame list \<Rightarrow> token list \<Rightarrow> json option"
  and parse_after :: "json \<Rightarrow> frame list \<Rightarrow> token list \<Rightarrow> json option"
where
  "parse_value stk [] = None"
| "parse_value stk (t # ts) =
     (case t of
        TNull \<Rightarrow> parse_after JNull stk ts
      | TTrue \<Rightarrow> parse_after (JBool True) stk ts
      | TFalse \<Rightarrow> parse_after (JBool False) stk ts
      | TNumber n \<Rightarrow> parse_after (JNum n) stk ts
      | TString x \<Rightarrow> parse_after (JStr x) stk ts
      | TLBracket \<Rightarrow>
          (case ts of
             TRBracket # ts' \<Rightarrow> parse_after (JArr []) stk ts'
           | _ \<Rightarrow> parse_value (FArr [] # stk) ts)
      | TLBrace \<Rightarrow>
          (case ts of
             TRBrace # ts' \<Rightarrow> parse_after (JObj []) stk ts'
           | TString k # TColon # ts' \<Rightarrow> parse_value (FObj [] k # stk) ts'
           | _ \<Rightarrow> None)
      | _ \<Rightarrow> None)"
| "parse_after v [] ts = (if ts = [] then Some v else None)"
| "parse_after v (f # stk) [] = None"
| "parse_after v (FArr es # stk) (t # ts) =
     (case t of
        TComma \<Rightarrow> parse_value (FArr (v # es) # stk) ts
      | TRBracket \<Rightarrow> parse_after (JArr (rev (v # es))) stk ts
      | _ \<Rightarrow> None)"
| "parse_after v (FObj kvs k # stk) (t # ts) =
     (case t of
        TComma \<Rightarrow>
          (case ts of
             TString k' # TColon # ts' \<Rightarrow> parse_value (FObj (prop_set k v kvs) k' # stk) ts'
           | _ \<Rightarrow> None)
      | TRBrace \<Rightarrow> parse_after (JObj (prop_set k v kvs)) stk ts
      | _ \<Rightarrow> None)"

definition JSON_parse :: "string \<Rightarrow> js_error + json" where
  \<comment> \<open>\<open>JSON.parse(text)\<close>; \<open>Inl SyntaxError\<close> is the exception it throws\<close>
  "JSON_parse text =
     (case lex text of
        None \<Rightarrow> Inl SyntaxError
      | Some ts \<Rightarrow> (case parse_value [] ts of None \<Rightarrow> Inl SyntaxError | Some v \<Rightarrow> Inr v))"

subsection \<open>JSON.stringify\<close>

definition hex_digit :: "nat \<Rightarrow> char" where
  "hex_digit n = ''0123456789abcdef'' ! (n mod 16)"

definition quote_char :: "char \<Rightarrow> string" where
  "quote_char c =
     (if c = CHR 0x22 then [CHR 0x5C, CHR 0x22]
      else if c = CHR 0x5C then [CHR 0x5C, CHR 0x5C]
      else if c = CHR 0x08 then [CHR 0x5C, CHR ''b'']
      else if c = CHR 0x0C then [CHR 0x5C, CHR ''f'']
      else if c = CHR 0x0A then [CHR 0x5C, CHR ''n'']
      else if c = CHR 0x0D then [CHR 0x5C, CHR ''r'']
      else if c = CHR 0x09 then [CHR 0x5C, CHR ''t'']
      else if is_control c
        then [CHR 0x5C, CHR ''u'', CHR ''0'', CHR ''0'',
              hex_digit (of_char c div 16), hex_digit (of_char c)]
      else [c])"

definition quote :: "string \<Rightarrow> string" where
  "quote x = [CHR 0x22] @ concat (map quote_char x) @ [CHR 0x22]"

fun join :: "'a list \<Rightarrow> 'a list list \<Rightarrow> 'a list" where
  \<comment> \<open>\<open>xs.join(sep)\<close>\<close>
  "join sep [] = []"
| "join sep [x] = x"
| "join sep (x # y # ys) = x @ sep @ join sep (y # ys)"

fun JSON_stringify :: "json \<Rightarrow> string" where
  \<comment> \<open>\<open>JSON.stringify(v)\<close> with no indentation, on a value that \<open>JSON.parse\<close> returned\<close>
  "JSON_stringify JNull = ''null''"
| "JSON_stringify (JBool b) = (if b then ''true'' else ''false'')"
| "JSON_stringify (JNum n) = n"
| "JSON_stringify (JStr x) = quote x"
| "JSON_stringify (JArr xs) = ''['' @ join '','' (map JSON_stringify xs) @ '']''"
| "JSON_stringify (JObj kvs) =
     ''{'' @ join '','' (map (\<lambda>(k, v). quote k @ '':'' @ JSON_stringify v) kvs) @ ''}''"

subsection \<open>Values that JSON.parse returns\<close>

text \<open>
  In a value that \<open>JSON.parse\<close> returns every number is a JSON numeral and no object has a
  key twice. \<open>tokens_of\<close> gives the tokens of the text that \<open>JSON.stringify\<close> writes for a
  value.
\<close>

fun wf_json :: "json \<Rightarrow> bool" where
  "wf_json JNull = True"
| "wf_json (JBool b) = True"
| "wf_json (JNum n) = valid_number n"
| "wf_json (JStr x) = True"
| "wf_json (JArr xs) = list_all wf_json xs"
| "wf_json (JObj kvs) = (distinct (map fst kvs) \<and> list_all (\<lambda>kv. wf_json (snd kv)) kvs)"

definition numbers_valid :: "token list \<Rightarrow> bool" where
  \<comment> \<open>every number token holds a JSON numeral\<close>
  "numbers_valid ts = list_all (\<lambda>t. case t of TNumber n \<Rightarrow> valid_number n | _ \<Rightarrow> True) ts"

fun frame_wf :: "frame \<Rightarrow> bool" where
  \<comment> \<open>what an open frame of the parser has collected so far\<close>
  "frame_wf (FArr es) = list_all wf_json es"
| "frame_wf (FObj kvs k) = wf_json (JObj kvs)"

fun tokens_of :: "json \<Rightarrow> token list" where
  "tokens_of JNull = [TNull]"
| "tokens_of (JBool b) = [if b then TTrue else TFalse]"
| "tokens_of (JNum n) = [TNumber n]"
| "tokens_of (JStr x) = [TString x]"
| "tokens_of (JArr xs) = TLBracket # join [TComma] (map tokens_of xs) @ [TRBracket]"
| "tokens_of (JObj kvs) =
     TLBrace # join [TComma] (map (\<lambda>kv. TString (fst kv) # TColon # tokens_of (snd kv)) kvs)
       @ [TRBrace]"

definition ends_value :: "string \<Rightarrow> bool" where
  \<comment> \<open>what may follow a value in the text that \<open>JSON.stringify\<close> writes\<close>
  "ends_value rest = (rest = [] \<or> (\<exists>c cs. rest = c # cs \<and> c \<in> set '',]}''))"

fun path_get :: "json \<Rightarrow> string list \<Rightarrow> json option" where
  \<comment> \<open>\<open>v.k1.k2...\<close>, \<open>None\<close> as soon as a property is missing\<close>
  "path_get v [] = Some v"
| "path_get v (k # ks) = (case get_prop v k of None \<Rightarrow> None | Some c \<Rightarrow> path_get c ks)"

section \<open>The generate route: normalizing the agent's parts\<close>

text \<open>
  \<open>src/app/api/generate/route.ts\<close>. A part of the agent's message is a JSON object; the
  record holds the four properties the loop reads (\<open>text'\<close> is \<open>part.text\<close>), \<open>None\<close> for one that is
  \<open>undefined\<close>. \<open>mimeType\<close> is \<open>part.metadata?.mimeType\<close>.
\<close>

record part =
  kind :: "json option"
  text' :: "json option"
  mimeType :: "json option"
  data :: "json option"

record norm_state =
  a2uiMessages :: "json list"
  textContent :: string

definition delimiter :: string where
  "delimiter = ''---a2ui_JSON---''"

definition cleaned :: "string \<Rightarrow> string" where
  \<comment> \<open>lines 141 to 145, and 177 to 181\<close>
  "cleaned jsonPart =
     trim (replace_tail False ''```'' (replace_head True ''```json'' (trim jsonPart)))"

definition parse_messages :: "string \<Rightarrow> js_error + json list" where
  \<comment> \<open>the body of the \<open>try\<close>, lines 141 to 151: what it pushes onto \<open>a2uiMessages\<close>\<close>
  "parse_messages jsonPart =
     (case JSON_parse (cleaned jsonPart) of
        Inl e \<Rightarrow> Inl e
      | Inr parsed \<Rightarrow>
          (case parsed of
             JArr xs \<Rightarrow> Inr xs
           | _ \<Rightarrow> Inr [parsed]))"

definition embedded_messages :: "string option \<Rightarrow> json list" where
  \<comment> \<open>lines 139 to 155: \<open>if (jsonPart?.trim()) { try {...} catch (e) {console.error(...)} }\<close>\<close>
  "embedded_messages jsonPart =
     (case jsonPart of
        None \<Rightarrow> []
      | Some j \<Rightarrow>
          if trim j = [] then []
          else (case parse_messages j of Inl e \<Rightarrow> [] | Inr ms \<Rightarrow> ms))"

definition second :: "string list \<Rightarrow> string option" where
  \<comment> \<open>\<open>const [, jsonPart] = pieces\<close>\<close>
  "second pieces = (case pieces of _ # j # _ \<Rightarrow> Some j | _ \<Rightarrow> None)"

definition text_step :: "norm_state \<Rightarrow> part \<Rightarrow> js_error + norm_state" where
  \<comment> \<open>lines 130 to 159; \<open>pre\<close> is \<open>before\<close>, and \<open>before.trimEnd()\<close> throws a TypeError when it is
      \<open>undefined\<close>\<close>
  "text_step st p =
     (case (kind p, text' p) of
        (Some (JStr k), Some (JStr raw)) \<Rightarrow>
          if k = ''text'' then
            (if str_includes raw delimiter then
               (case str_split raw delimiter 2 of
                  [] \<Rightarrow> Inl TypeError
                | pre # _ \<Rightarrow>
                    Inr (st\<lparr>textContent := textContent st @ trimEnd pre,
                            a2uiMessages := a2uiMessages st
                              @ embedded_messages (second (str_split raw delimiter 2))\<rparr>))
             else Inr (st\<lparr>textContent := textContent st @ raw\<rparr>))
          else Inr st
      | _ \<Rightarrow> Inr st)"

definition data_step :: "norm_state \<Rightarrow> part \<Rightarrow> norm_state" where
  \<comment> \<open>lines 162 to 168\<close>
  "data_step st p =
     (if kind p = Some (JStr ''data'')
         \<and> mimeType p = Some (JStr ''application/json+a2ui'')
         \<and> truthy_opt (data p)
      then (case data p of
              Some d \<Rightarrow> st\<lparr>a2uiMessages := a2uiMessages st @ [d]\<rparr>
            | None \<Rightarrow> st)
      else st)"

definition part_step :: "norm_state \<Rightarrow> part \<Rightarrow> js_error + norm_state" where
  \<comment> \<open>the body of \<open>for (const part of parts)\<close>\<close>
  "part_step st p = (case text_step st p of Inl e \<Rightarrow> Inl e | Inr st' \<Rightarrow> Inr (data_step st' p))"

fun parts_loop :: "norm_state \<Rightarrow> part list \<Rightarrow> js_error + norm_state" where
  "parts_loop st [] = Inr st"
| "parts_loop st (p # ps) =
     (case part_step st p of Inl e \<Rightarrow> Inl e | Inr st' \<Rightarrow> parts_loop st' ps)"

definition fallback :: "norm_state \<Rightarrow> js_error + norm_state" where
  \<comment> \<open>lines 172 to 192\<close>
  "fallback st =
     (if a2uiMessages st = [] \<and> str_includes (textContent st) delimiter then
        (case str_split (textContent st) delimiter 2 of
           [] \<Rightarrow> Inl TypeError
         | pre # _ \<Rightarrow>
             Inr (st\<lparr>textContent := trimEnd pre,
                     a2uiMessages := a2uiMessages st
                       @ embedded_messages (second (str_split (textContent st) delimiter 2))\<rparr>))
      else Inr st)"

definition strip_wrapper :: "string \<Rightarrow> string" where
  \<comment> \<open>lines 195 to 198\<close>
  "strip_wrapper t = trim (replace_tail True ''</text>'' (replace_head True ''<text>'' t))"

definition normalize :: "part list \<Rightarrow> js_error + (json list \<times> string)" where
  \<comment> \<open>lines 117 to 198: the \<open>messages\<close> and the \<open>text\<close> of the response\<close>
  "normalize parts =
     (case parts_loop \<lparr>a2uiMessages = [], textContent = []\<rparr> parts of
        Inl e \<Rightarrow> Inl e
      | Inr st \<Rightarrow>
          (case fallback st of
             Inl e \<Rightarrow> Inl e
           | Inr st' \<Rightarrow> Inr (a2uiMessages st', strip_wrapper (textContent st'))))"

definition text_part :: "string \<Rightarrow> part" where
  \<comment> \<open>\<open>{kind: "text", text: t}\<close>\<close>
  "text_part t = \<lparr>kind = Some (JStr ''text''), text' = Some (JStr t), mimeType = None, data = None\<rparr>"

definition data_part :: "json \<Rightarrow> part" where
  \<comment> \<open>\<open>{kind: "data", metadata: {mimeType: "application/json+a2ui"}, data: d}\<close>\<close>
  "data_part d = \<lparr>kind = Some (JStr ''data''), text' = None,
     mimeType = Some (JStr ''application/json+a2ui''), data = Some d\<rparr>"

section \<open>The generate route: the request handler\<close>

text \<open>
  \<open>POST\<close> of \<open>src/app/api/generate/route.ts\<close>. What the handler cannot compute is an
  argument: the environment, the two identifiers built from \<open>Date.now()\<close> and
  \<open>Math.random()\<close>, the outcome of \<open>await req.json()\<close> (an exception, or the JSON object
  that is the body of the request), and the agent, a function from the payload fetched to
  what \<open>fetch\<close> and \<open>agentResponse.json()\<close> do with it. The handler returns its response
  together with the list of the payloads it sent to the agent.
\<close>

record thrown =
  is_Error :: bool
  name :: string
  message :: string
  cause_code :: "string option"

record env =
  A2A_AGENT_URL_env :: "string option"
  NODE_ENV :: "string option"
  engine_message :: "js_error \<Rightarrow> string"

record rpc_result =
  rpc_error :: "json option"
  status_message_parts :: "part list option"
  artifact_parts :: "part list option"
  message_parts :: "part list option"

record agent_response =
  agent_ok :: bool
  agent_status :: nat
  agent_json :: "thrown + rpc_result"

datatype agent_reply = Throws thrown | Replies agent_response

datatype resp_body =
    ErrorBody json "string option"
  | ResultBody "json list" string "rpc_result option"

record response =
  status :: nat
  body :: resp_body

definition A2A_AGENT_URL :: "env \<Rightarrow> string" where
  \<comment> \<open>line 8\<close>
  "A2A_AGENT_URL e =
     (case A2A_AGENT_URL_env e of
        None \<Rightarrow> ''http://localhost:10002''
      | Some u \<Rightarrow> if u = [] then ''http://localhost:10002'' else u)"

definition A2UI_EXTENSION_URI :: string where
  "A2UI_EXTENSION_URI = ''https://a2ui.org/a2a-extension/a2ui/v0.8''"

fun decimal :: "nat \<Rightarrow> string" where
  \<comment> \<open>a natural number written in a template string\<close>
  "decimal n =
     (if n < 10 then [''0123456789'' ! n]
      else decimal (n div 10) @ [''0123456789'' ! (n mod 10)])"

declare decimal.simps [simp del]

definition typeof :: "json option \<Rightarrow> string" where
  "typeof v =
     (case v of
        None \<Rightarrow> ''undefined''
      | Some JNull \<Rightarrow> ''object''
      | Some (JBool b) \<Rightarrow> ''boolean''
      | Some (JNum n) \<Rightarrow> ''number''
      | Some (JStr x) \<Rightarrow> ''string''
      | Some (JArr xs) \<Rightarrow> ''object''
      | Some (JObj kvs) \<Rightarrow> ''object'')"

definition prompt_missing :: "json option \<Rightarrow> bool" where
  \<comment> \<open>line 16: \<open>!prompt || typeof prompt !== "string" || !prompt.trim()\<close>\<close>
  "prompt_missing prompt =
     (\<not> truthy_opt prompt \<or> typeof prompt \<noteq> ''string''
      \<or> (case prompt of Some (JStr p) \<Rightarrow> trim p = [] | _ \<Rightarrow> False))"

definition rpcPayload :: "string \<Rightarrow> string \<Rightarrow> string \<Rightarrow> json" where
  \<comment> \<open>lines 26 to 48\<close>
  "rpcPayload requestId messageId prompt =
     JObj [(''jsonrpc'', JStr ''2.0''),
           (''id'', JStr requestId),
           (''method'', JStr ''message/send''),
           (''params'', JObj
              [(''message'', JObj
                  [(''messageId'', JStr messageId),
                   (''role'', JStr ''user''),
                   (''parts'', JArr [JObj [(''kind'', JStr ''text''), (''text'', JStr (trim prompt))]]),
                   (''extensions'', JArr [JStr A2UI_EXTENSION_URI])]),
               (''configuration'', JObj
                  [(''acceptedOutputModes'', JArr [JStr ''text'', JStr ''application/json+a2ui'']),
                   (''extensions'', JArr [JStr A2UI_EXTENSION_URI])]),
               (''extensions'', JArr [JStr A2UI_EXTENSION_URI])])]"

definition caught :: "thrown \<Rightarrow> response" where
  \<comment> \<open>lines 209 to 214, the outer \<open>catch\<close>\<close>
  "caught err =
     \<lparr>status = 500,
      body = ErrorBody (JStr (if is_Error err then message err else ''Internal server error'')) None\<rparr>"

definition error_name :: "js_error \<Rightarrow> string" where
  "error_name x = (case x of SyntaxError \<Rightarrow> ''SyntaxError'' | TypeError \<Rightarrow> ''TypeError'')"

definition engine_error :: "env \<Rightarrow> js_error \<Rightarrow> thrown" where
  \<comment> \<open>an exception thrown by the engine itself\<close>
  "engine_error e x =
     \<lparr>is_Error = True,
      name = error_name x,
      message = engine_message e x,
      cause_code = None\<rparr>"

definition parts_of :: "rpc_result \<Rightarrow> part list" where
  \<comment> \<open>lines 122 to 126; an array is truthy even when it is empty\<close>
  "parts_of r =
     (case status_message_parts r of
        Some ps \<Rightarrow> ps
      | None \<Rightarrow>
          (case artifact_parts r of
             Some ps \<Rightarrow> ps
           | None \<Rightarrow> (case message_parts r of Some ps \<Rightarrow> ps | None \<Rightarrow> [])))"

definition respond :: "env \<Rightarrow> rpc_result \<Rightarrow> response" where
  \<comment> \<open>lines 109 to 208\<close>
  "respond e r =
     (if truthy_opt (rpc_error r) then
        \<lparr>status = 500,
         body = ErrorBody
           (case rpc_error r of
              Some err \<Rightarrow>
                (if truthy_opt (get_prop err ''message'')
                 then (case get_prop err ''message'' of Some m \<Rightarrow> m | None \<Rightarrow> JStr ''Agent error'')
                 else JStr ''Agent error'')
            | None \<Rightarrow> JStr ''Agent error'')
           None\<rparr>
      else
        (case normalize (parts_of r) of
           Inl x \<Rightarrow> caught (engine_error e x)
         | Inr (msgs, txt) \<Rightarrow>
             \<lparr>status = 200,
              body = ResultBody msgs txt
                (if NODE_ENV e = Some ''development'' then Some r else None)\<rparr>))"

definition after_fetch :: "env \<Rightarrow> agent_reply \<Rightarrow> response" where
  \<comment> \<open>lines 52 to 107\<close>
  "after_fetch e reply =
     (case reply of
        Throws fetchErr \<Rightarrow>
          if cause_code fetchErr = Some ''ECONNREFUSED'' then
            \<lparr>status = 503,
             body = ErrorBody
               (JStr (''Cannot reach the A2A agent at '' @ A2A_AGENT_URL e
                      @ ''. Is the Python agent running?''))
               (Some ''AGENT_UNAVAILABLE'')\<rparr>
          else if is_Error fetchErr \<and> name fetchErr = ''TimeoutError'' then
            \<lparr>status = 504,
             body = ErrorBody (JStr ''A2A agent timed out. Try again later.'')
               (Some ''AGENT_TIMEOUT'')\<rparr>
          else caught fetchErr
      | Replies agentResponse \<Rightarrow>
          if \<not> agent_ok agentResponse then
            \<lparr>status = 502,
             body = ErrorBody (JStr (''Agent returned '' @ decimal (agent_status agentResponse))) None\<rparr>
          else
            (case agent_json agentResponse of
               Inl err \<Rightarrow> caught err
             | Inr rpcResult \<Rightarrow> respond e rpcResult))"

definition POST :: "env \<Rightarrow> string \<Rightarrow> string \<Rightarrow> thrown + (string \<times> json) list
    \<Rightarrow> (json \<Rightarrow> agent_reply) \<Rightarrow> response \<times> json list" where
  \<comment> \<open>lines 11 to 215; \<open>body'\<close> is \<open>body\<close>, a JSON object given by its properties\<close>
  "POST e requestId messageId req agent =
     (case req of
        Inl err \<Rightarrow> (caught err, [])
      | Inr body' \<Rightarrow>
          if prompt_missing (map_of body' ''prompt'') then
            (\<lparr>status = 400, body = ErrorBody (JStr ''prompt is required'') None\<rparr>, [])
          else
            (case map_of body' ''prompt'' of
               Some (JStr prompt) \<Rightarrow>
                 (after_fetch e (agent (rpcPayload requestId messageId prompt)),
                  [rpcPayload requestId messageId prompt])
             | _ \<Rightarrow> (caught (engine_error e TypeError), [])))"

definition rpcPayload_history :: "string \<Rightarrow> string \<Rightarrow> string \<Rightarrow> json option \<Rightarrow> json" where
  \<comment> \<open>the variant of the route that forwards the thread (\<open>const { prompt, history } = body\<close>):
      its payload carries \<open>metadata: {conversationHistory: history || []}\<close>\<close>
  "rpcPayload_history requestId messageId prompt history' =
     JObj [(''jsonrpc'', JStr ''2.0''),
           (''id'', JStr requestId),
           (''method'', JStr ''message/send''),
           (''params'', JObj
              [(''message'', JObj
                  [(''messageId'', JStr messageId),
                   (''role'', JStr ''user''),
                   (''parts'', JArr [JObj [(''kind'', JStr ''text''), (''text'', JStr (trim prompt))]]),
                   (''extensions'', JArr [JStr A2UI_EXTENSION_URI]),
                   (''metadata'', JObj
                      [(''conversationHistory'',
                        (case history' of
                           Some h \<Rightarrow> if truthy h then h else JArr []
                         | None \<Rightarrow> JArr []))])]),
               (''configuration'', JObj
                  [(''acceptedOutputModes'', JArr [JStr ''text'', JStr ''application/json+a2ui'']),
                   (''extensions'', JArr [JStr A2UI_EXTENSION_URI])]),
               (''extensions'', JArr [JStr A2UI_EXTENSION_URI])])]"

section \<open>The page: one turn of the conversation\<close>

text \<open>
  \<open>Home\<close> of \<open>src/app/page.tsx\<close>. The state of the component is a record of its
  \<open>useState\<close> cells (\<open>a2uiMessages'\<close> is the cell \<open>a2uiMessages\<close>; \<open>placeholderIdx\<close>,
  which only the timer writes, is left out). \<open>submit\<close> is one transition: the view shown
  while the state is \<open>thinking\<close> has no control, so nothing happens between the call of
  \<open>fetch\<close> and its outcome, which is what the argument \<open>fetch'\<close> returns for the body sent
  (the object handed to \<open>JSON.stringify\<close>, given by its properties).
\<close>

datatype AppState = idle | thinking | rendered | error

datatype role = user | assistant

record HistoryTurn =
  role :: role
  content :: string

record page =
  input :: string
  state :: AppState
  a2uiMessages' :: "json list"
  lastPrompt :: string
  errorMsg :: string
  history :: "HistoryTurn list"

datatype fetched = Rejected thrown | Resolved response

definition initial :: page where
  \<comment> \<open>lines 119 to 125\<close>
  "initial = \<lparr>input = [], state = idle, a2uiMessages' = [], lastPrompt = [], errorMsg = [],
     history = []\<rparr>"

definition no_ui_message :: string where
  \<comment> \<open>line 162; the dash is U+2014, written here as its three UTF-8 bytes\<close>
  "no_ui_message = ''Claude generated no UI '' @ [CHR 0xE2, CHR 0x80, CHR 0x94] @ '' try rephrasing''"

fun ToString :: "json \<Rightarrow> string" where
  \<comment> \<open>the message of \<open>new Error(v)\<close>; a number is written as its numeral\<close>
  "ToString JNull = ''null''"
| "ToString (JBool b) = (if b then ''true'' else ''false'')"
| "ToString (JNum n) = n"
| "ToString (JStr x) = x"
| "ToString (JArr xs) = join '','' (map (\<lambda>x. if x = JNull then [] else ToString x) xs)"
| "ToString (JObj kvs) = ''[object Object]''"

definition turn_json :: "HistoryTurn \<Rightarrow> json" where
  "turn_json t =
     JObj [(''role'', JStr (case role t of user \<Rightarrow> ''user'' | assistant \<Rightarrow> ''assistant'')),
           (''content'', JStr (content t))]"

definition request_body :: "string \<Rightarrow> HistoryTurn list \<Rightarrow> (string \<times> json) list" where
  \<comment> \<open>line 156: \<open>{ prompt: trimmed, history: historyToSend }\<close>\<close>
  "request_body trimmed historyToSend =
     [(''prompt'', JStr trimmed), (''history'', JArr (map turn_json historyToSend))]"

definition res_ok :: "response \<Rightarrow> bool" where
  "res_ok res = (200 \<le> status res \<and> status res \<le> 299)"

definition data_error :: "resp_body \<Rightarrow> json option" where
  "data_error d = (case d of ErrorBody e c \<Rightarrow> Some e | ResultBody ms t r \<Rightarrow> None)"

definition data_messages :: "resp_body \<Rightarrow> json list option" where
  "data_messages d = (case d of ErrorBody e c \<Rightarrow> None | ResultBody ms t r \<Rightarrow> Some ms)"

definition data_text :: "resp_body \<Rightarrow> string option" where
  "data_text d = (case d of ErrorBody e c \<Rightarrow> None | ResultBody ms t r \<Rightarrow> Some t)"

definition Error :: "string \<Rightarrow> thrown" where
  \<comment> \<open>\<open>new Error(msg)\<close>\<close>
  "Error msg = \<lparr>is_Error = True, name = ''Error'', message = msg, cause_code = None\<rparr>"

definition assistantContent :: "string option \<Rightarrow> json list \<Rightarrow> string" where
  \<comment> \<open>lines 169 to 171\<close>
  "assistantContent txt msgs =
     (case txt of
        None \<Rightarrow> JSON_stringify (JArr msgs)
      | Some t \<Rightarrow>
          if t \<noteq> []
          then t @ [CHR 0x0A] @ ''---a2ui_JSON---'' @ [CHR 0x0A] @ JSON_stringify (JArr msgs)
          else JSON_stringify (JArr msgs))"

definition try_block :: "fetched \<Rightarrow> thrown + (json list \<times> string)" where
  \<comment> \<open>lines 153 to 171: the exception thrown, or \<open>data.messages\<close> and \<open>assistantContent\<close>\<close>
  "try_block f =
     (case f of
        Rejected err \<Rightarrow> Inl err
      | Resolved res \<Rightarrow>
          if \<not> res_ok res then Inl (Error (''Server error: '' @ decimal (status res)))
          else if truthy_opt (data_error (body res)) then
            Inl (Error (case data_error (body res) of Some e \<Rightarrow> ToString e | None \<Rightarrow> []))
          else
            (case data_messages (body res) of
               None \<Rightarrow> Inl (Error no_ui_message)
             | Some ms \<Rightarrow>
                 if length ms = 0 then Inl (Error no_ui_message)
                 else Inr (ms, assistantContent (data_text (body res)) ms)))"

definition submit :: "string \<Rightarrow> bool \<Rightarrow> ((string \<times> json) list \<Rightarrow> fetched) \<Rightarrow> page
    \<Rightarrow> page \<times> (string \<times> json) list list" where
  \<comment> \<open>lines 136 to 182: the state it leaves, and the bodies of the requests it sent\<close>
  "submit prompt isRefinement fetch' s =
     (let trimmed = trim prompt in
      if trimmed = [] \<or> state s = thinking then (s, [])
      else
        let s1 = s\<lparr>lastPrompt := trimmed, input := [], state := thinking, errorMsg := []\<rparr>;
            s2 = (if \<not> isRefinement then s1\<lparr>a2uiMessages' := [], history := []\<rparr> else s1);
            historyToSend = (if isRefinement then history s else [])
        in (case try_block (fetch' (request_body trimmed historyToSend)) of
              Inr (msgs, assistant_content) \<Rightarrow>
                (s2\<lparr>a2uiMessages' := msgs, state := rendered,
                    history := historyToSend
                      @ [\<lparr>role = user, content = trimmed\<rparr>,
                         \<lparr>role = assistant, content = assistant_content\<rparr>]\<rparr>,
                 [request_body trimmed historyToSend])
            | Inl err \<Rightarrow>
                (s2\<lparr>errorMsg := (if is_Error err then message err else ''Something went wrong''),
                    state := error\<rparr>,
                 [request_body trimmed historyToSend])))"

definition reset :: "page \<Rightarrow> page" where
  \<comment> \<open>lines 184 to 191\<close>
  "reset s = s\<lparr>state := idle, a2uiMessages' := [], input := [], errorMsg := [], history := []\<rparr>"

text \<open>
  The states that the controls of the page can reach. The view of the state \<open>idle\<close> has the
  text area, the send button and the five prompt chips, which call \<open>submit(..., false)\<close>
  (lines 292 to 313); the view of \<open>rendered\<close> has the refine bar, which calls
  \<open>submit(val, true)\<close> when \<open>val.trim()\<close> is not empty, and the button "New UI", which calls
  \<open>reset\<close> (lines 337 to 366); the view of \<open>error\<close> has the button "Try again", which
  calls \<open>reset\<close> (line 376).
\<close>

inductive reachable :: "page \<Rightarrow> bool" where
  start: "reachable initial"
| typing: "reachable s \<Longrightarrow> state s = idle \<Longrightarrow> reachable (s\<lparr>input := v\<rparr>)"
| new_ui: "reachable s \<Longrightarrow> state s = idle \<Longrightarrow> reachable (fst (submit p False fetch' s))"
| refine: "reachable s \<Longrightarrow> state s = rendered \<Longrightarrow> trim v \<noteq> []
           \<Longrightarrow> reachable (fst (submit v True fetch' s))"
| again: "reachable s \<Longrightarrow> state s = rendered \<or> state s = error \<Longrightarrow> reachable (reset s)"

definition server :: "env \<Rightarrow> string \<Rightarrow> string \<Rightarrow> (json \<Rightarrow> agent_reply)
    \<Rightarrow> (string \<times> json) list \<Rightarrow> fetched" where
  \<comment> \<open>\<open>fetch("/api/generate", ...)\<close> answered by the route\<close>
  "server e requestId messageId agent body' =
     Resolved (fst (POST e requestId messageId (Inr body') agent))"

definition answering :: "'a \<Rightarrow> 'b \<Rightarrow> 'a" where
  \<comment> \<open>the \<open>fetch\<close>, or the agent, that gives the same outcome whatever it is sent\<close>
  "answering outcome request = outcome"

definition default_env :: env where
  \<comment> \<open>no variable of the environment set; the text of an engine's message plays no role\<close>
  "default_env = \<lparr>A2A_AGENT_URL_env = None, NODE_ENV = None, engine_message = error_name\<rparr>"

section \<open>The renderer\<close>

text \<open>
  \<open>A2UIRenderer\<close> of \<open>src/app/page.tsx\<close> hands the messages of the turn to
  \<open>Data.A2uiMessageProcessor\<close> of the package \<open>@a2ui/lit\<close> and mounts the surface that the
  processor holds under the \<open>surfaceId\<close> of the first message with a key
  \<open>beginRendering\<close>. The processor is not part of the sources; it is modelled here from
  sections 3 and 4.2 of the specification.
\<close>

text \<open>
  Modelled from the spec: section 3 gives the component node, the three protocol messages and
  the surface with these fields.
\<close>

record ComponentNode =
  node_id :: string
  node_type :: string
  properties :: "(string \<times> json) list"

datatype ProtocolMessage =
    BeginRendering string string "json option"
  | SurfaceUpdate string "ComponentNode list"
  | DataModelUpdate string string json

record Surface =
  surfaceId :: string
  rootComponentId :: string
  components :: "(string \<times> ComponentNode) list"
  dataModel :: json
  styles :: "json option"

definition as_string :: "json option \<Rightarrow> string option" where
  "as_string v = (case v of Some (JStr x) \<Rightarrow> Some x | _ \<Rightarrow> None)"

definition as_component :: "json \<Rightarrow> ComponentNode option" where
  \<comment> \<open>Modelled from the spec: a component node is \<open>{id, type, properties}\<close>.\<close>
  "as_component c =
     (case (as_string (get_prop c ''id''), as_string (get_prop c ''type'')) of
        (Some i, Some t) \<Rightarrow>
          Some \<lparr>node_id = i, node_type = t,
                properties = (case get_prop c ''properties'' of Some (JObj kvs) \<Rightarrow> kvs | _ \<Rightarrow> [])\<rparr>
      | _ \<Rightarrow> None)"

definition as_message :: "json \<Rightarrow> ProtocolMessage option" where
  \<comment> \<open>Modelled from the spec: the three kinds of protocol message, each an object with one
      key that names the kind; a value of another shape is no protocol message.\<close>
  "as_message m =
     (case get_prop m ''beginRendering'' of
        Some b \<Rightarrow>
          (case (as_string (get_prop b ''surfaceId''), as_string (get_prop b ''root'')) of
             (Some sid, Some r) \<Rightarrow> Some (BeginRendering sid r (get_prop b ''styles''))
           | _ \<Rightarrow> None)
      | None \<Rightarrow>
          (case get_prop m ''surfaceUpdate'' of
             Some u \<Rightarrow>
               (case (as_string (get_prop u ''surfaceId''), get_prop u ''components'') of
                  (Some sid, Some (JArr cs)) \<Rightarrow> Some (SurfaceUpdate sid (List.map_filter as_component cs))
                | _ \<Rightarrow> None)
           | None \<Rightarrow>
               (case get_prop m ''dataModelUpdate'' of
                  Some d \<Rightarrow>
                    (case (as_string (get_prop d ''surfaceId''), as_string (get_prop d ''path''),
                           get_prop d ''contents'') of
                       (Some sid, Some pth, Some c) \<Rightarrow> Some (DataModelUpdate sid pth c)
                     | _ \<Rightarrow> None)
                | None \<Rightarrow> None)))"

fun set_at :: "string list \<Rightarrow> json \<Rightarrow> json \<Rightarrow> json" where
  \<comment> \<open>Modelled from the spec: the subtree at a path is replaced; the empty path is the whole
      tree.\<close>
  "set_at [] v t = v"
| "set_at (k # ks) v t =
     JObj (prop_set k
             (set_at ks v (case get_prop t k of Some c \<Rightarrow> c | None \<Rightarrow> JObj []))
             (case t of JObj kvs \<Rightarrow> kvs | _ \<Rightarrow> []))"

definition path_keys :: "string \<Rightarrow> string list" where
  \<comment> \<open>Modelled from the spec: the keys of a path such as \<open>/a/b\<close>; \<open>/\<close> has none.\<close>
  "path_keys pth = filter (\<lambda>k. k \<noteq> []) (split_scan ''/'' 0 [] pth)"

fun context_set :: "string \<Rightarrow> Surface \<Rightarrow> (string \<times> Surface) list \<Rightarrow> (string \<times> Surface) list" where
  \<comment> \<open>Modelled from the spec: the context of a surface id is replaced in place.\<close>
  "context_set sid sf [] = [(sid, sf)]"
| "context_set sid sf ((k, x) # cs) =
     (if k = sid then (sid, sf) # cs else (k, x) # context_set sid sf cs)"

fun component_set :: "ComponentNode \<Rightarrow> (string \<times> ComponentNode) list \<Rightarrow> (string \<times> ComponentNode) list" where
  \<comment> \<open>Modelled from the spec: an entry for an id already there replaces it wholesale.\<close>
  "component_set n [] = [(node_id n, n)]"
| "component_set n ((k, x) # cs) =
     (if k = node_id n then (k, n) # cs else (k, x) # component_set n cs)"

definition apply_message :: "(string \<times> Surface) list \<Rightarrow> ProtocolMessage \<Rightarrow> (string \<times> Surface) list" where
  \<comment> \<open>Modelled from the spec: \<open>BeginRendering\<close> starts the context of a surface id not seen
      before and is ignored for one already begun; an update of a surface that was never begun
      is dropped.\<close>
  "apply_message ctxs m =
     (case m of
        BeginRendering sid r st \<Rightarrow>
          (case map_of ctxs sid of
             Some sf \<Rightarrow> ctxs
           | None \<Rightarrow>
               ctxs @ [(sid, \<lparr>surfaceId = sid, rootComponentId = r, components = [],
                              dataModel = JObj [], styles = st\<rparr>)])
      | SurfaceUpdate sid ns \<Rightarrow>
          (case map_of ctxs sid of
             None \<Rightarrow> ctxs
           | Some sf \<Rightarrow>
               context_set sid (sf\<lparr>components := fold component_set ns (components sf)\<rparr>) ctxs)
      | DataModelUpdate sid pth c \<Rightarrow>
          (case map_of ctxs sid of
             None \<Rightarrow> ctxs
           | Some sf \<Rightarrow>
               context_set sid (sf\<lparr>dataModel := set_at (path_keys pth) c (dataModel sf)\<rparr>) ctxs))"

definition processMessages :: "json list \<Rightarrow> (string \<times> Surface) list" where
  \<comment> \<open>Modelled from the spec: the messages are applied strictly in input order to a fresh,
      empty resolution state; the result is what \<open>getSurfaces()\<close> returns.\<close>
  "processMessages messages = fold (\<lambda>m ctxs. apply_message ctxs m) (List.map_filter as_message messages) []"

definition has_beginRendering :: "json \<Rightarrow> js_error + bool" where
  \<comment> \<open>line 52: \<open>"beginRendering" in m\<close>, a TypeError when \<open>m\<close> is not an object\<close>
  "has_beginRendering m =
     (case m of
        JObj kvs \<Rightarrow> Inr (''beginRendering'' \<in> set (map fst kvs))
      | JArr xs \<Rightarrow> Inr False
      | _ \<Rightarrow> Inl TypeError)"

fun find_begin :: "json list \<Rightarrow> js_error + json option" where
  \<comment> \<open>line 52: \<open>messages.find((m) => "beginRendering" in m)\<close>\<close>
  "find_begin [] = Inr None"
| "find_begin (m # ms) =
     (case has_beginRendering m of
        Inl e \<Rightarrow> Inl e
      | Inr found \<Rightarrow> if found then Inr (Some m) else find_begin ms)"

datatype rendering = NotMounted | RenderError js_error | Mounted "json option" Surface

definition A2UIRenderer :: "json list \<Rightarrow> rendering" where
  \<comment> \<open>lines 39 to 104, once the component is mounted: the surface handed to
      \<open>a2ui-surface\<close>, with the \<open>surfaceId\<close> it is handed under\<close>
  "A2UIRenderer messages =
     (if length messages = 0 then NotMounted
      else
        (case find_begin messages of
           Inl e \<Rightarrow> RenderError e
         | Inr None \<Rightarrow> NotMounted
         | Inr (Some beginMsg) \<Rightarrow>
             (case get_prop beginMsg ''beginRendering'' of
                None \<Rightarrow> NotMounted
              | Some b \<Rightarrow>
                  if \<not> truthy b then NotMounted
                  else
                    (case as_string (get_prop b ''surfaceId'') of
                       None \<Rightarrow> NotMounted
                     | Some sid \<Rightarrow>
                         (case map_of (processMessages messages) sid of
                            None \<Rightarrow> NotMounted
                          | Some surface \<Rightarrow> Mounted (get_prop b ''surfaceId'') surface)))))"

section \<open>Strings: splitting and trimming\<close>

lemma startsWith_prefix: "startsWith s p \<longleftrightarrow> prefix p s"
  by (induction s p rule: startsWith.induct) auto

lemma startsWith_append: "startsWith (sep @ b) sep"
  by (simp add: startsWith_prefix)

lemma str_includes_append: "str_includes (a @ sep @ b) sep"
proof (induction a)
  case Nil
  show ?case
  proof (cases "sep @ b")
    case Nil
    then show ?thesis by simp
  next
    case (Cons c cs)
    have "startsWith (sep @ b) sep" by (rule startsWith_append)
    with Cons show ?thesis by simp
  qed
next
  case (Cons x a)
  then show ?case by simp
qed

lemma split_scan_skip: "k \<le> length s \<Longrightarrow> split_scan sep k cur s = split_scan sep 0 cur (drop k s)"
  by (induction sep k cur s rule: split_scan.induct) simp_all

lemma split_scan_none:
  "\<not> str_includes s sep \<Longrightarrow> split_scan sep 0 cur s = [rev cur @ s]"
  by (induction s arbitrary: cur) auto

lemma startsWith_shorter:
  assumes "startsWith (u @ v) sep" and "length sep \<le> length u"
  shows "startsWith u sep"
proof -
  from assms(1) have "prefix sep (u @ v)" by (simp add: startsWith_prefix)
  moreover have "prefix u (u @ v)" by simp
  ultimately have "prefix sep u" using assms(2) by (rule prefix_length_prefix)
  then show ?thesis by (simp add: startsWith_prefix)
qed

lemma split_scan_hit:
  assumes "sep \<noteq> []"
  shows "split_scan sep 0 cur (sep @ b) = rev cur # split_scan sep 0 [] b"
proof -
  from assms obtain c cs where sep: "sep = c # cs" by (cases sep) auto
  have "startsWith (c # cs @ b) (c # cs)" using startsWith_append [of "c # cs" b] by simp
  then have "split_scan (c # cs) 0 cur (c # cs @ b) = rev cur # split_scan (c # cs) (length cs) [] (cs @ b)"
    by simp
  also have "split_scan (c # cs) (length cs) [] (cs @ b) = split_scan (c # cs) 0 [] b"
    using split_scan_skip [of "length cs" "cs @ b" "c # cs" "[]"] by simp
  finally show ?thesis by (simp add: sep)
qed

lemma split_scan_first:
  assumes "sep \<noteq> []" and "\<not> str_includes (a @ butlast sep) sep"
  shows "split_scan sep 0 cur (a @ sep @ b) = (rev cur @ a) # split_scan sep 0 [] b"
  using assms(2)
proof (induction a arbitrary: cur)
  case Nil
  show ?case using split_scan_hit [OF assms(1)] by simp
next
  case (Cons x a)
  have no: "\<not> startsWith (x # a @ sep @ b) sep"
  proof
    assume h: "startsWith (x # a @ sep @ b) sep"
    have "(x # a @ butlast sep) @ ([last sep] @ b) = x # a @ (butlast sep @ [last sep]) @ b"
      by simp
    also have "\<dots> = x # a @ sep @ b"
      by (simp only: append_butlast_last_id [OF assms(1)])
    finally have "x # a @ sep @ b = (x # a @ butlast sep) @ ([last sep] @ b)"
      by (rule sym)
    with h have "startsWith ((x # a @ butlast sep) @ ([last sep] @ b)) sep" by (simp only:)
    moreover have "length sep \<le> length (x # a @ butlast sep)" by simp
    ultimately have "startsWith (x # a @ butlast sep) sep" by (rule startsWith_shorter)
    with Cons.prems show False by simp
  qed
  have "\<not> str_includes (a @ butlast sep) sep"
    using Cons.prems by simp
  then have "split_scan sep 0 (x # cur) (a @ sep @ b) = (rev (x # cur) @ a) # split_scan sep 0 [] b"
    by (rule Cons.IH)
  with no show ?case by simp
qed



lemma trimStart_ws: "list_all isWhiteSpace w \<Longrightarrow> trimStart (w @ s) = trimStart s"
  by (induction w) (simp_all add: trimStart_def)

lemma trimEnd_ws: "list_all isWhiteSpace w \<Longrightarrow> trimEnd (s @ w) = trimEnd s"
proof -
  assume "list_all isWhiteSpace w"
  then have "list_all isWhiteSpace (rev w)" by (simp add: list_all_iff)
  then have "dropWhile isWhiteSpace (rev w @ rev s) = dropWhile isWhiteSpace (rev s)"
    by (induction "rev w" arbitrary: w) (simp_all add: list_all_iff dropWhile_append)
  then show ?thesis by (simp add: trimEnd_def)
qed

lemma trimStart_fixed: "s = [] \<or> \<not> isWhiteSpace (hd s) \<Longrightarrow> trimStart s = s"
  by (cases s) (auto simp: trimStart_def)

lemma trimEnd_fixed: "s = [] \<or> \<not> isWhiteSpace (last s) \<Longrightarrow> trimEnd s = s"
proof -
  assume "s = [] \<or> \<not> isWhiteSpace (last s)"
  then have "rev s = [] \<or> \<not> isWhiteSpace (hd (rev s))" by (auto simp: hd_rev)
  then have "dropWhile isWhiteSpace (rev s) = rev s" by (cases "rev s") auto
  then show ?thesis by (simp add: trimEnd_def)
qed

lemma trimStart_head: "trimStart s = [] \<or> \<not> isWhiteSpace (hd (trimStart s))"
  unfolding trimStart_def by (metis hd_dropWhile)

lemma trimEnd_last: "trimEnd s = [] \<or> \<not> isWhiteSpace (last (trimEnd s))"
proof (cases "dropWhile isWhiteSpace (rev s) = []")
  case True
  then show ?thesis by (simp add: trimEnd_def)
next
  case False
  then have "\<not> isWhiteSpace (hd (dropWhile isWhiteSpace (rev s)))" by (rule hd_dropWhile)
  with False show ?thesis by (simp add: trimEnd_def last_rev)
qed

lemma trimEnd_keeps_head:
  assumes "s \<noteq> []" and "\<not> isWhiteSpace (hd s)"
  shows "trimEnd s \<noteq> [] \<and> hd (trimEnd s) = hd s"
proof -
  from assms obtain c cs where s: "s = c # cs" and c: "\<not> isWhiteSpace c" by (cases s) auto
  have "dropWhile isWhiteSpace (rev cs @ [c]) = dropWhile isWhiteSpace (rev cs) @ [c]"
    using c by (induction "rev cs" arbitrary: cs) (simp_all add: dropWhile_append3 dropWhile_append)
  then have "trimEnd s = c # rev (dropWhile isWhiteSpace (rev cs))"
    by (simp add: trimEnd_def s)
  then show ?thesis by (simp add: s)
qed

lemma trim_head: "trim s = [] \<or> \<not> isWhiteSpace (hd (trim s))"
proof (cases "trimStart s = []")
  case True
  then show ?thesis by (simp add: trim_def trimEnd_def)
next
  case False
  with trimStart_head [of s] have "\<not> isWhiteSpace (hd (trimStart s))" by simp
  with False trimEnd_keeps_head [of "trimStart s"] show ?thesis by (simp add: trim_def)
qed

lemma trim_last: "trim s = [] \<or> \<not> isWhiteSpace (last (trim s))"
  unfolding trim_def by (rule trimEnd_last)

lemma trim_fixed:
  "s = [] \<or> (\<not> isWhiteSpace (hd s) \<and> \<not> isWhiteSpace (last s)) \<Longrightarrow> trim s = s"
  by (auto simp: trim_def trimStart_fixed trimEnd_fixed)

lemma trim_trim: "trim (trim s) = trim s"
  using trim_head [of s] trim_last [of s] by (intro trim_fixed) auto

lemma trim_ws: "list_all isWhiteSpace w \<Longrightarrow> list_all isWhiteSpace w' \<Longrightarrow> trim (w @ s @ w') = trim s"
proof -
  assume w: "list_all isWhiteSpace w" and w': "list_all isWhiteSpace w'"
  show ?thesis
  proof (cases "list_all isWhiteSpace s")
    case True
    then have "list_all isWhiteSpace (s @ w')" using w' by simp
    then have "trimStart (s @ w') = []" "trimStart s = []" using True
      by (simp_all add: trimStart_def list_all_iff)
    then show ?thesis using w by (simp add: trim_def trimStart_ws)
  next
    case False
    then have "trimStart (s @ w') = trimStart s @ w'"
      by (simp add: trimStart_def dropWhile_append1 list_all_iff) (metis dropWhile_append1)
    then show ?thesis using w w' by (simp add: trim_def trimStart_ws trimEnd_ws)
  qed
qed

section \<open>Normalization\<close>

lemma fence_chars: "\<not> isWhiteSpace (CHR 0x60)"
  by (simp add: isWhiteSpace_def)

lemma replace_tail_fence: "replace_tail False ''```'' (u @ ''```'') = trimEnd u"
  by (simp add: replace_tail_def trimEnd_def)

lemma tag_cases:
  assumes "map toUpperCase tag = ''JSON''"
  obtains a b c d where "tag = [a, b, c, d]" "toUpperCase a = CHR ''J''" "toUpperCase b = CHR ''S''"
    "toUpperCase c = CHR ''O''" "toUpperCase d = CHR ''N''"
  using assms by (auto simp: map_eq_Cons_conv)

lemma replace_head_fence:
  assumes "map toUpperCase tag = ''JSON''"
  shows "replace_head True ''```json'' (''```'' @ tag @ r) = trimStart r"
proof -
  from assms obtain a b c d where t: "tag = [a, b, c, d]" and u: "toUpperCase a = CHR ''J''"
    "toUpperCase b = CHR ''S''" "toUpperCase c = CHR ''O''" "toUpperCase d = CHR ''N''"
    by (rule tag_cases)
  have j: "toUpperCase CHR ''j'' = CHR ''J''" "toUpperCase CHR ''s'' = CHR ''S''"
    "toUpperCase CHR ''o'' = CHR ''O''" "toUpperCase CHR ''n'' = CHR ''N''"
    by (simp_all add: toUpperCase_def)
  show ?thesis by (simp add: replace_head_def t u j trimStart_def)
qed

lemma trimStart_fence: "trimStart (u @ ''```'') = trimStart u @ ''```''"
  by (simp add: trimStart_def dropWhile_append3 fence_chars)

lemma cleaned_fenced:
  assumes tag: "map toUpperCase tag = ''JSON''"
    and ws: "list_all isWhiteSpace w0" "list_all isWhiteSpace w1"
            "list_all isWhiteSpace w2" "list_all isWhiteSpace w3"
  shows "cleaned (w0 @ ''```'' @ tag @ w1 @ doc @ w2 @ ''```'' @ w3) = trim doc"
    and "trim (w0 @ ''```'' @ tag @ w1 @ doc @ w2 @ ''```'' @ w3) \<noteq> []"
proof -
  let ?G = "''```'' @ tag @ w1 @ doc @ w2 @ ''```''"
  have G_last: "last ?G = CHR 0x60"
  proof -
    have "?G = (''```'' @ tag @ w1 @ doc @ w2 @ ''``'') @ [CHR 0x60]" by simp
    then show ?thesis by (simp only: last_snoc)
  qed
  have "trim (w0 @ ?G @ w3) = trim ?G" using ws by (rule_tac trim_ws)
  also have "trim ?G = ?G"
    by (rule trim_fixed, rule disjI2) (simp only: G_last fence_chars, simp add: fence_chars)
  finally have tG: "trim (w0 @ ''```'' @ tag @ w1 @ doc @ w2 @ ''```'' @ w3) = ?G" by simp
  then show "trim (w0 @ ''```'' @ tag @ w1 @ doc @ w2 @ ''```'' @ w3) \<noteq> []" by simp
  have "replace_head True ''```json'' ?G = trimStart (w1 @ doc @ w2 @ ''```'')"
    using replace_head_fence [OF tag] by simp
  also have "\<dots> = trimStart ((doc @ w2) @ ''```'')" using ws(2) by (simp add: trimStart_ws)
  also have "\<dots> = trimStart (doc @ w2) @ ''```''" by (rule trimStart_fence)
  finally have h: "replace_head True ''```json'' ?G = trimStart (doc @ w2) @ ''```''" .
  have "cleaned (w0 @ ''```'' @ tag @ w1 @ doc @ w2 @ ''```'' @ w3)
      = trim (replace_tail False ''```'' (trimStart (doc @ w2) @ ''```''))"
    unfolding cleaned_def tG h ..
  also have "\<dots> = trim (trim (doc @ w2))"
    by (simp only: replace_tail_fence trim_def)
  also have "\<dots> = trim (doc @ w2)" by (rule trim_trim)
  also have "\<dots> = trim doc" using trim_ws [of "[]" w2 doc] ws(3) by simp
  finally show "cleaned (w0 @ ''```'' @ tag @ w1 @ doc @ w2 @ ''```'' @ w3) = trim doc" .
qed

lemma cleaned_plain:
  assumes "\<not> startsWith_i (trim doc) ''```json''" and "\<not> startsWith (rev (trim doc)) ''```''"
  shows "cleaned doc = trim doc"
  using assms by (simp add: cleaned_def replace_head_def replace_tail_def trim_trim)

lemma JSON_parse_empty: "JSON_parse [] = Inl SyntaxError"
  by (simp add: JSON_parse_def)

lemma trim_Nil: "trim [] = []"
  by (simp add: trim_def trimStart_def trimEnd_def)

lemma cleaned_blank: "trim j = [] \<Longrightarrow> cleaned j = []"
  by (simp add: cleaned_def replace_head_def replace_tail_def trim_Nil)

lemma embedded_messages_Some:
  "embedded_messages (Some j) = (case parse_messages j of Inl e \<Rightarrow> [] | Inr ms \<Rightarrow> ms)"
  by (simp add: embedded_messages_def parse_messages_def cleaned_blank JSON_parse_empty)

lemma split_two:
  assumes "sep \<noteq> []" and "\<not> str_includes (a @ butlast sep) sep"
    and "(tail = [] \<and> \<not> str_includes c sep)
         \<or> (\<exists>d. tail = sep @ d \<and> \<not> str_includes (c @ butlast sep) sep)"
  shows "str_split (a @ sep @ c @ tail) sep 2 = [a, c]"
proof -
  have "split_scan sep 0 [] (a @ sep @ c @ tail) = a # split_scan sep 0 [] (c @ tail)"
    using split_scan_first [OF assms(1,2), of "[]" "c @ tail"] by simp
  moreover have "take 1 (split_scan sep 0 [] (c @ tail)) = [c]"
    using assms(3)
  proof
    assume "tail = [] \<and> \<not> str_includes c sep"
    then show ?thesis by (simp add: split_scan_none)
  next
    assume "\<exists>d. tail = sep @ d \<and> \<not> str_includes (c @ butlast sep) sep"
    then obtain d where "tail = sep @ d" "\<not> str_includes (c @ butlast sep) sep" by blast
    then show ?thesis using split_scan_first [OF assms(1), of c "[]" d] by simp
  qed
  ultimately show ?thesis by (simp add: str_split_def numeral_2_eq_2)
qed

lemma delimiter_nonempty: "delimiter \<noteq> []"
  by (simp add: delimiter_def)

lemma text_step_delimited:
  assumes "kind p = Some (JStr ''text'')" and "text' p = Some (JStr (a @ delimiter @ c @ tail))"
    and "\<not> str_includes (a @ butlast delimiter) delimiter"
    and "(tail = [] \<and> \<not> str_includes c delimiter)
         \<or> (\<exists>d. tail = delimiter @ d \<and> \<not> str_includes (c @ butlast delimiter) delimiter)"
  shows "text_step st p =
     Inr (st\<lparr>textContent := textContent st @ trimEnd a,
             a2uiMessages := a2uiMessages st @ embedded_messages (Some c)\<rparr>)"
proof -
  have sp: "str_split (a @ delimiter @ c @ tail) delimiter 2 = [a, c]"
    using delimiter_nonempty assms(3,4) by (rule split_two)
  have inc: "str_includes (a @ delimiter @ c @ tail) delimiter"
    by (rule str_includes_append)
  show ?thesis
    by (simp add: text_step_def assms(1,2) inc sp second_def)
qed

lemma data_step_text: "kind p = Some (JStr ''text'') \<Longrightarrow> data_step st p = st"
  by (simp add: data_step_def)

text \<open>
  Claim C1, as amended. A text part holds the delimiter; \<open>a\<close> is what precedes its first
  occurrence and \<open>c\<close> what lies between that occurrence and the next one, or the end of the
  part when the delimiter does not occur again. The loop body appends \<open>a\<close>, trailing white
  space trimmed, to the text, and parses \<open>c\<close>, cleaned of its fence, as JSON: the
  elements of an array are pushed one by one, any other value is pushed as one message, and
  a syntax error pushes nothing; the step returns normally in each case, so the loop goes
  on with the next part.
\<close>

theorem C1_delimited_text_part:
  assumes "kind p = Some (JStr ''text'')" and "text' p = Some (JStr (a @ delimiter @ c @ tail))"
    and "\<not> str_includes (a @ butlast delimiter) delimiter"
    and "(tail = [] \<and> \<not> str_includes c delimiter)
         \<or> (\<exists>d. tail = delimiter @ d \<and> \<not> str_includes (c @ butlast delimiter) delimiter)"
  shows "part_step st p =
     Inr (st\<lparr>textContent := textContent st @ trimEnd a,
             a2uiMessages := a2uiMessages st @
               (case JSON_parse (cleaned c) of
                  Inl e \<Rightarrow> []
                | Inr (JArr xs) \<Rightarrow> xs
                | Inr v \<Rightarrow> [v])\<rparr>)"
proof -
  have "embedded_messages (Some c) =
      (case JSON_parse (cleaned c) of Inl e \<Rightarrow> [] | Inr (JArr xs) \<Rightarrow> xs | Inr v \<Rightarrow> [v])"
    by (simp add: embedded_messages_Some parse_messages_def split: sum.split json.split)
  then show ?thesis
    using text_step_delimited [OF assms, of st] assms(1)
    by (simp add: part_step_def data_step_def)
qed










lemma fallback_delimited:
  assumes "a2uiMessages st = []" and "textContent st = a @ delimiter @ c @ tail"
    and "\<not> str_includes (a @ butlast delimiter) delimiter"
    and "(tail = [] \<and> \<not> str_includes c delimiter)
         \<or> (\<exists>d. tail = delimiter @ d \<and> \<not> str_includes (c @ butlast delimiter) delimiter)"
  shows "fallback st = Inr (st\<lparr>textContent := trimEnd a, a2uiMessages := embedded_messages (Some c)\<rparr>)"
proof -
  have sp: "str_split (a @ delimiter @ c @ tail) delimiter 2 = [a, c]"
    using delimiter_nonempty assms(3,4) by (rule split_two)
  have inc: "str_includes (a @ delimiter @ c @ tail) delimiter"
    by (rule str_includes_append)
  show ?thesis by (simp add: fallback_def assms(1,2) inc sp second_def)
qed

lemma embedded_messages_cases:
  "embedded_messages (Some c) =
      (case JSON_parse (cleaned c) of Inl e \<Rightarrow> [] | Inr (JArr xs) \<Rightarrow> xs | Inr v \<Rightarrow> [v])"
  by (simp add: embedded_messages_Some parse_messages_def split: sum.split json.split)

text \<open>
  Claim C6, as amended. After the loop the list of messages is empty and the concatenated
  text holds the delimiter; \<open>a\<close> is what precedes its first occurrence and \<open>c\<close> what
  lies between that occurrence and the next one, or the end of the text. Normalization
  returns the messages parsed from \<open>c\<close>, cleaned of its fence, and the text \<open>a\<close>, trailing
  white space trimmed, then stripped of the wrapper and trimmed as every returned text is.
  The extraction is not repeated on the result.
\<close>

theorem C6_fallback_extraction:
  assumes "parts_loop \<lparr>a2uiMessages = [], textContent = []\<rparr> parts = Inr st"
    and "a2uiMessages st = []" and "textContent st = a @ delimiter @ c @ tail"
    and "\<not> str_includes (a @ butlast delimiter) delimiter"
    and "(tail = [] \<and> \<not> str_includes c delimiter)
         \<or> (\<exists>d. tail = delimiter @ d \<and> \<not> str_includes (c @ butlast delimiter) delimiter)"
  shows "normalize parts =
     Inr ((case JSON_parse (cleaned c) of Inl e \<Rightarrow> [] | Inr (JArr xs) \<Rightarrow> xs | Inr v \<Rightarrow> [v]),
          strip_wrapper (trimEnd a))"
  using assms(1) fallback_delimited [OF assms(2-5)]
  by (simp add: normalize_def embedded_messages_cases)


section \<open>Evaluation on concrete inputs\<close>

lemmas eval_string = isWhiteSpace_def trimStart_def trimEnd_def trim_def str_split_def
  replace_head_def replace_tail_def toUpperCase_def delimiter_def

lemmas eval_json = JSON_parse_def json_ws_def is_digit_def is_num_char_def is_word_char_def
  punct_token_def word_token_def emit_def is_control_def valid_number_def valid_int_def
  valid_frac_def valid_exp_def all_digits1_def simple_escape_def unicode_escape_def hex_val_def

lemmas eval_norm = cleaned_def parse_messages_def embedded_messages_def second_def text_step_def
  data_step_def part_step_def fallback_def strip_wrapper_def normalize_def text_part_def
  data_part_def truthy_opt_def

text \<open>
  The boundary example of the specification: \<open>Here.\<close>, a line feed, the delimiter, a line
  feed and an array of one \<open>beginRendering\<close> message.
\<close>

theorem C1_delimited_text_part_witness:
  \<open>\<not> str_includes ((''Here.'' @ [CHR 0x0A]) @ butlast delimiter) delimiter
   \<and> \<not> str_includes ([CHR 0x0A] @ ''[{"beginRendering":{"surfaceId":"s1","root":"r1"}}]'') delimiter
   \<and> part_step \<lparr>a2uiMessages = [], textContent = []\<rparr>
        (text_part ((''Here.'' @ [CHR 0x0A]) @ delimiter
           @ ([CHR 0x0A] @ ''[{"beginRendering":{"surfaceId":"s1","root":"r1"}}]'') @ []))
     = Inr \<lparr>a2uiMessages =
              [JObj [(''beginRendering'', JObj [(''surfaceId'', JStr ''s1''), (''root'', JStr ''r1'')])]],
            textContent = ''Here.''\<rparr>\<close>
proof -
  let ?a = "''Here.'' @ [CHR 0x0A]"
  let ?c = \<open>[CHR 0x0A] @ ''[{"beginRendering":{"surfaceId":"s1","root":"r1"}}]''\<close>
  let ?p = "text_part (?a @ delimiter @ ?c @ [])"
  have 1: "kind ?p = Some (JStr ''text'')" by (simp add: text_part_def)
  have 2: "text' ?p = Some (JStr (?a @ delimiter @ ?c @ []))" by (simp add: text_part_def)
  have 3: "\<not> str_includes (?a @ butlast delimiter) delimiter" by (simp add: delimiter_def)
  have 4: "\<not> str_includes ?c delimiter" by (simp add: delimiter_def)
  then have 5: "([] = [] \<and> \<not> str_includes ?c delimiter)
      \<or> (\<exists>d. [] = delimiter @ d \<and> \<not> str_includes (?c @ butlast delimiter) delimiter)"
    by simp
  have 6: "JSON_parse (cleaned ?c) =
      Inr (JArr [JObj [(''beginRendering'', JObj [(''surfaceId'', JStr ''s1''), (''root'', JStr ''r1'')])]])"
    by (simp add: eval_string eval_json eval_norm)
  have 7: "trimEnd ?a = ''Here.''" by (simp add: eval_string)
  show ?thesis
    using C1_delimited_text_part [OF 1 2 3 5, of "\<lparr>a2uiMessages = [], textContent = []\<rparr>"] 3 4
    by (simp only: 6 7) simp
qed

text \<open>
  Claim C1 as stated fails on a part with two delimiters: \<open>split(delimiter, 2)\<close> drops
  what follows the second delimiter, so the part yields the message \<open>{}\<close>, although
  everything after the first delimiter is no JSON document.
\<close>

theorem C1_counterexample:
  \<open>part_step \<lparr>a2uiMessages = [], textContent = []\<rparr>
      (text_part ''x---a2ui_JSON---[{}]---a2ui_JSON---y'')
     = Inr \<lparr>a2uiMessages = [JObj []], textContent = ''x''\<rparr>
   \<and> JSON_parse (cleaned ''[{}]---a2ui_JSON---y'') = Inl SyntaxError\<close>
  by (simp add: eval_string eval_json eval_norm)

text \<open>
  Claim C2, as amended. A document \<open>doc\<close> that is not itself fenced is wrapped in a fence
  whose opening carries the tag \<open>json\<close>, in any case of its letters, with white space
  \<open>w0\<close> to \<open>w3\<close> around the markers. The text handed to \<open>JSON.parse\<close> is then the
  trimmed document, and the part yields what the part with the bare document yields.
\<close>

theorem C2_json_tagged_fence:
  assumes "map toUpperCase tag = ''JSON''"
    and "list_all isWhiteSpace w0" and "list_all isWhiteSpace w1"
    and "list_all isWhiteSpace w2" and "list_all isWhiteSpace w3"
    and "\<not> startsWith_i (trim doc) ''```json''" and "\<not> startsWith (rev (trim doc)) ''```''"
    and "\<not> str_includes (a @ butlast delimiter) delimiter"
    and "\<not> str_includes (w0 @ ''```'' @ tag @ w1 @ doc @ w2 @ ''```'' @ w3) delimiter"
    and "\<not> str_includes doc delimiter"
  shows "cleaned (w0 @ ''```'' @ tag @ w1 @ doc @ w2 @ ''```'' @ w3) = trim doc
       \<and> part_step st (text_part (a @ delimiter @ w0 @ ''```'' @ tag @ w1 @ doc @ w2 @ ''```'' @ w3))
         = part_step st (text_part (a @ delimiter @ doc))"
proof
  let ?F = "w0 @ ''```'' @ tag @ w1 @ doc @ w2 @ ''```'' @ w3"
  show cF: "cleaned ?F = trim doc" using assms(1-5) by (rule cleaned_fenced(1))
  have cd: "cleaned doc = trim doc" using assms(6,7) by (rule cleaned_plain)
  have em: "embedded_messages (Some ?F) = embedded_messages (Some doc)"
    by (simp only: embedded_messages_Some parse_messages_def cF cd)
  have k: "\<And>t. kind (text_part t) = Some (JStr ''text'')" by (simp add: text_part_def)
  have t: "\<And>t. text' (text_part t) = Some (JStr t)" by (simp add: text_part_def)
  have F: "text_step st (text_part (a @ delimiter @ ?F @ [])) =
     Inr (st\<lparr>textContent := textContent st @ trimEnd a,
             a2uiMessages := a2uiMessages st @ embedded_messages (Some ?F)\<rparr>)"
    using text_step_delimited [of "text_part (a @ delimiter @ ?F @ [])" a ?F "[]" st] k t assms(8,9)
    by simp
  have D: "text_step st (text_part (a @ delimiter @ doc @ [])) =
     Inr (st\<lparr>textContent := textContent st @ trimEnd a,
             a2uiMessages := a2uiMessages st @ embedded_messages (Some doc)\<rparr>)"
    using text_step_delimited [of "text_part (a @ delimiter @ doc @ [])" a doc "[]" st] k t assms(8,10)
    by simp
  from F D em have "text_step st (text_part (a @ delimiter @ ?F)) = text_step st (text_part (a @ delimiter @ doc))"
    by simp
  moreover have "\<And>x. part_step st (text_part x) = text_step st (text_part x)"
  proof -
    fix x show "part_step st (text_part x) = text_step st (text_part x)"
      by (cases "text_step st (text_part x)") (simp_all add: part_step_def data_step_text k)
  qed
  ultimately show "part_step st (text_part (a @ delimiter @ ?F)) = part_step st (text_part (a @ delimiter @ doc))"
    by (simp only:)
qed

text \<open>
  Claim C2 as stated fails on a fence without the tag: only the closing marker is removed,
  the text \<open>```\<close>, line feed, \<open>[{}]\<close> is no JSON document, and the part yields no message,
  while the same document without the fence yields one.
\<close>

theorem C2_counterexample:
  \<open>part_step \<lparr>a2uiMessages = [], textContent = []\<rparr>
      (text_part (''x---a2ui_JSON---```'' @ [CHR 0x0A] @ ''[{}]'' @ [CHR 0x0A] @ ''```''))
     = Inr \<lparr>a2uiMessages = [], textContent = ''x''\<rparr>
   \<and> part_step \<lparr>a2uiMessages = [], textContent = []\<rparr> (text_part ''x---a2ui_JSON---[{}]'')
     = Inr \<lparr>a2uiMessages = [JObj []], textContent = ''x''\<rparr>\<close>
  by (simp add: eval_string eval_json eval_norm)

text \<open>
  A fence with the tag \<open>json\<close> around \<open>[{}]\<close>, with line feeds inside the markers.
\<close>

theorem C2_json_tagged_fence_witness:
  \<open>map toUpperCase ''json'' = ''JSON''
   \<and> part_step \<lparr>a2uiMessages = [], textContent = []\<rparr>
        (text_part (''x'' @ delimiter @ [CHR 0x0A] @ ''```'' @ ''json'' @ [CHR 0x0A] @ ''[{}]''
           @ [CHR 0x0A] @ ''```'' @ []))
     = part_step \<lparr>a2uiMessages = [], textContent = []\<rparr> (text_part (''x'' @ delimiter @ ''[{}]''))
   \<and> part_step \<lparr>a2uiMessages = [], textContent = []\<rparr> (text_part (''x'' @ delimiter @ ''[{}]''))
     = Inr \<lparr>a2uiMessages = [JObj []], textContent = ''x''\<rparr>\<close>
proof -
  have 1: "map toUpperCase ''json'' = ''JSON''" by (simp add: toUpperCase_def)
  have 2: "list_all isWhiteSpace [CHR 0x0A]" by (simp add: isWhiteSpace_def)
  have 3: "list_all isWhiteSpace []" by simp
  have 4: "\<not> startsWith_i (trim ''[{}]'') ''```json''" by (simp add: eval_string)
  have 5: "\<not> startsWith (rev (trim ''[{}]'')) ''```''" by (simp add: eval_string)
  have 6: "\<not> str_includes (''x'' @ butlast delimiter) delimiter" by (simp add: delimiter_def)
  have 7: "\<not> str_includes ([CHR 0x0A] @ ''```'' @ ''json'' @ [CHR 0x0A] @ ''[{}]''
      @ [CHR 0x0A] @ ''```'' @ []) delimiter" by (simp add: delimiter_def)
  have 8: "\<not> str_includes ''[{}]'' delimiter" by (simp add: delimiter_def)
  have 9: "part_step \<lparr>a2uiMessages = [], textContent = []\<rparr> (text_part (''x'' @ delimiter @ ''[{}]''))
     = Inr \<lparr>a2uiMessages = [JObj []], textContent = ''x''\<rparr>"
    by (simp add: eval_string eval_json eval_norm)
  show ?thesis
    using C2_json_tagged_fence [OF 1 2 2 2 3 4 5 6 7 8, of "\<lparr>a2uiMessages = [], textContent = []\<rparr>"] 1 9
    by blast
qed



text \<open>
  A delimiter cut in two by the boundary between two parts.
\<close>

theorem C6_fallback_extraction_witness:
  \<open>parts_loop \<lparr>a2uiMessages = [], textContent = []\<rparr> [text_part ''A---a2ui_'', text_part ''JSON---[{}]'']
     = Inr \<lparr>a2uiMessages = [], textContent = ''A'' @ delimiter @ ''[{}]'' @ []\<rparr>
   \<and> normalize [text_part ''A---a2ui_'', text_part ''JSON---[{}]''] = Inr ([JObj []], ''A'')\<close>
proof -
  let ?st = "\<lparr>a2uiMessages = [], textContent = ''A'' @ delimiter @ ''[{}]'' @ []\<rparr>"
  have 1: "parts_loop \<lparr>a2uiMessages = [], textContent = []\<rparr>
      [text_part ''A---a2ui_'', text_part ''JSON---[{}]''] = Inr ?st"
    by (simp add: eval_string eval_norm)
  have 2: "a2uiMessages ?st = []" by simp
  have 3: "textContent ?st = ''A'' @ delimiter @ ''[{}]'' @ []" by simp
  have 4: "\<not> str_includes (''A'' @ butlast delimiter) delimiter" by (simp add: delimiter_def)
  have 5: "([] = [] \<and> \<not> str_includes ''[{}]'' delimiter)
      \<or> (\<exists>d. [] = delimiter @ d \<and> \<not> str_includes (''[{}]'' @ butlast delimiter) delimiter)"
    by (simp add: delimiter_def)
  have 6: "JSON_parse (cleaned ''[{}]'') = Inr (JArr [JObj []])"
    by (simp add: eval_string eval_json eval_norm)
  have 7: "strip_wrapper (trimEnd ''A'') = ''A''" by (simp add: eval_string eval_norm)
  from C6_fallback_extraction [OF 1 2 3 4 5]
  have "normalize [text_part ''A---a2ui_'', text_part ''JSON---[{}]''] = Inr ([JObj []], ''A'')"
    by (simp only: 6 7) simp
  with 1 show ?thesis by blast
qed

text \<open>
  Claim C6 as stated fails when the concatenated text holds the delimiter twice: what
  follows the second delimiter is dropped and the message \<open>{}\<close> is returned, although the
  whole suffix after the first delimiter is no JSON document.
\<close>

theorem C6_counterexample:
  \<open>normalize [text_part ''A---a2ui_'', text_part ''JSON---[{}]---a2ui_'', text_part ''JSON---z'']
     = Inr ([JObj []], ''A'')
   \<and> JSON_parse (cleaned ''[{}]---a2ui_JSON---z'') = Inl SyntaxError\<close>
  by (simp add: eval_string eval_json eval_norm)

section \<open>JSON.parse after JSON.stringify\<close>

lemma join_Cons: "join sep (x # xs) = x @ concat (map (\<lambda>y. sep @ y) xs)"
  by (induction xs arbitrary: x) auto

lemma tokens_of_hd: "\<exists>t ts. tokens_of v = t # ts \<and> t \<noteq> TRBracket \<and> t \<noteq> TRBrace \<and> t \<noteq> TComma \<and> t \<noteq> TColon"
  by (cases v) auto

lemma parse_value_open_array:
  assumes "tokens_of v = t # ts'"  "t \<noteq> TRBracket"
  shows "parse_value stk (TLBracket # tokens_of v @ ts) = parse_value (FArr [] # stk) (tokens_of v @ ts)"
  using assms by (cases t) auto

lemma array_tail:
  assumes "\<And>x stk ts. x \<in> set ys \<Longrightarrow> parse_value stk (tokens_of x @ ts) = parse_after x stk ts"
  shows "parse_after y (FArr es # stk) (concat (map (\<lambda>v. [TComma] @ tokens_of v) ys) @ TRBracket # ts)
       = parse_after (JArr (rev es @ y # ys)) stk ts"
  using assms
proof (induction ys arbitrary: y es)
  case Nil
  then show ?case by simp
next
  case (Cons z zs)
  have "parse_after y (FArr es # stk) (concat (map (\<lambda>v. [TComma] @ tokens_of v) (z # zs)) @ TRBracket # ts)
      = parse_value (FArr (y # es) # stk) (tokens_of z @ (concat (map (\<lambda>v. [TComma] @ tokens_of v) zs) @ TRBracket # ts))"
    by simp
  also have "\<dots> = parse_after z (FArr (y # es) # stk) (concat (map (\<lambda>v. [TComma] @ tokens_of v) zs) @ TRBracket # ts)"
    using Cons.prems by simp
  also have "\<dots> = parse_after (JArr (rev (y # es) @ z # zs)) stk ts"
    using Cons.prems by (intro Cons.IH) simp
  finally show ?case by simp
qed

lemma prop_set_fresh: "k \<notin> set (map fst kvs) \<Longrightarrow> prop_set k v kvs = kvs @ [(k, v)]"
  by (induction kvs) auto

lemma object_tail:
  assumes "\<And>kv stk ts. kv \<in> set kvs \<Longrightarrow> parse_value stk (tokens_of (snd kv) @ ts) = parse_after (snd kv) stk ts"
    and "distinct (map fst (done @ (k, v) # kvs))"
  shows "parse_after v (FObj done k # stk)
           (concat (map (\<lambda>kv. [TComma] @ (TString (fst kv) # TColon # tokens_of (snd kv))) kvs) @ TRBrace # ts)
       = parse_after (JObj (done @ (k, v) # kvs)) stk ts"
  using assms
proof (induction kvs arbitrary: k v "done")
  case Nil
  then have "k \<notin> set (map fst done)" by auto
  then show ?case by (simp add: prop_set_fresh)
next
  case (Cons kv kvs)
  obtain k' v' where kv: "kv = (k', v')" by (cases kv)
  from Cons.prems(2) have fresh: "k \<notin> set (map fst done)" by auto
  have "parse_after v (FObj done k # stk)
           (concat (map (\<lambda>kv. [TComma] @ (TString (fst kv) # TColon # tokens_of (snd kv))) (kv # kvs)) @ TRBrace # ts)
      = parse_value (FObj (done @ [(k, v)]) k' # stk)
          (tokens_of v' @ (concat (map (\<lambda>kv. [TComma] @ (TString (fst kv) # TColon # tokens_of (snd kv))) kvs) @ TRBrace # ts))"
    by (simp add: kv prop_set_fresh [OF fresh])
  also have "\<dots> = parse_after v' (FObj (done @ [(k, v)]) k' # stk)
          (concat (map (\<lambda>kv. [TComma] @ (TString (fst kv) # TColon # tokens_of (snd kv))) kvs) @ TRBrace # ts)"
    using Cons.prems(1) [of kv] by (simp add: kv)
  also have "\<dots> = parse_after (JObj ((done @ [(k, v)]) @ (k', v') # kvs)) stk ts"
    using Cons.prems by (intro Cons.IH) (simp_all add: kv)
  finally show ?case by (simp add: kv)
qed

lemma parse_tokens_of:
  "wf_json v \<Longrightarrow> parse_value stk (tokens_of v @ ts) = parse_after v stk ts"
proof (induction v arbitrary: stk ts)
  case JNull
  show ?case by simp
next
  case (JBool b)
  show ?case by simp
next
  case (JNum n)
  show ?case by simp
next
  case (JStr x)
  show ?case by simp
next
  case (JArr xs)
  show ?case
  proof (cases xs)
    case Nil
    then show ?thesis by simp
  next
    case (Cons y ys)
    have ih: "\<And>x stk ts. x \<in> set (y # ys) \<Longrightarrow> parse_value stk (tokens_of x @ ts) = parse_after x stk ts"
      using JArr Cons by (auto simp: list_all_iff)
    obtain t ts' where t: "tokens_of y = t # ts'" "t \<noteq> TRBracket" using tokens_of_hd [of y] by blast
    have "parse_value stk (tokens_of (JArr xs) @ ts)
        = parse_value stk (TLBracket # tokens_of y @ (concat (map (\<lambda>v. [TComma] @ tokens_of v) ys) @ TRBracket # ts))"
      by (simp add: Cons join_Cons comp_def)
    also have "\<dots> = parse_value (FArr [] # stk) (tokens_of y @ (concat (map (\<lambda>v. [TComma] @ tokens_of v) ys) @ TRBracket # ts))"
      using t by (rule parse_value_open_array)
    also have "\<dots> = parse_after y (FArr [] # stk) (concat (map (\<lambda>v. [TComma] @ tokens_of v) ys) @ TRBracket # ts)"
      using ih by simp
    also have "\<dots> = parse_after (JArr (rev [] @ y # ys)) stk ts"
      using ih by (intro array_tail) simp
    finally show ?thesis by (simp add: Cons)
  qed
next
  case (JObj kvs)
  show ?case
  proof (cases kvs)
    case Nil
    then show ?thesis by simp
  next
    case (Cons kv rest)
    obtain k v where kv: "kv = (k, v)" by (cases kv)
    have ih: "\<And>p stk ts. p \<in> set (kv # rest) \<Longrightarrow> parse_value stk (tokens_of (snd p) @ ts) = parse_after (snd p) stk ts"
    proof -
      fix p stk ts assume p: "p \<in> set (kv # rest)"
      then have "wf_json (snd p)" using JObj.prems Cons by (auto simp: list_all_iff)
      moreover have "snd p \<in> Basic_BNFs.snds p" by (cases p) simp
      ultimately show "parse_value stk (tokens_of (snd p) @ ts) = parse_after (snd p) stk ts"
        using JObj.IH p Cons by blast
    qed
    have d: "distinct (map fst ([] @ (k, v) # rest))" using JObj.prems Cons kv by simp
    have "parse_value stk (tokens_of (JObj kvs) @ ts)
        = parse_value (FObj [] k # stk) (tokens_of v @
            (concat (map (\<lambda>kv. [TComma] @ (TString (fst kv) # TColon # tokens_of (snd kv))) rest) @ TRBrace # ts))"
      by (simp add: Cons kv join_Cons comp_def)
    also have "\<dots> = parse_after v (FObj [] k # stk)
            (concat (map (\<lambda>kv. [TComma] @ (TString (fst kv) # TColon # tokens_of (snd kv))) rest) @ TRBrace # ts)"
      using ih [of kv] by (simp add: kv)
    also have "\<dots> = parse_after (JObj ([] @ (k, v) # rest)) stk ts"
      using ih d by (intro object_tail) simp_all
    finally show ?thesis by (simp add: Cons kv)
  qed
qed

lemma emit_Some: "emit (Some t) r = map_option ((#) t) r"
  by (cases r) (simp_all add: emit_def)

lemmas lex_char_defs = json_ws_def is_digit_def is_word_char_def is_num_char_def punct_token_def

lemma lex_punct:
  "lex (CHR '','' # cs) = map_option ((#) TComma) (lex cs)"
  "lex (CHR '']'' # cs) = map_option ((#) TRBracket) (lex cs)"
  "lex (CHR ''}'' # cs) = map_option ((#) TRBrace) (lex cs)"
  "lex (CHR ''['' # cs) = map_option ((#) TLBracket) (lex cs)"
  "lex (CHR ''{'' # cs) = map_option ((#) TLBrace) (lex cs)"
  "lex (CHR '':'' # cs) = map_option ((#) TColon) (lex cs)"
  by (simp_all add: lex_char_defs emit_Some)

lemma ends_value_cases:
  assumes "ends_value rest"
  obtains "rest = []" | cs where "rest = CHR '','' # cs" | cs where "rest = CHR '']'' # cs"
    | cs where "rest = CHR ''}'' # cs"
  using assms by (auto simp: ends_value_def)

lemma lex_word_end:
  assumes "ends_value rest" and "\<forall>c\<in>set w. is_word_char c"
  shows "lex_word acc (w @ rest) = emit (word_token (rev acc @ w)) (lex rest)"
  using assms(2)
proof (induction w arbitrary: acc)
  case Nil
  from assms(1) show ?case
    by (cases rule: ends_value_cases) (simp_all add: lex_char_defs emit_def split: option.split)
next
  case (Cons c w)
  then show ?case by simp
qed

lemma lex_literals:
  assumes "ends_value rest"
  shows "lex (''null'' @ rest) = map_option ((#) TNull) (lex rest)"
    and "lex (''true'' @ rest) = map_option ((#) TTrue) (lex rest)"
    and "lex (''false'' @ rest) = map_option ((#) TFalse) (lex rest)"
proof -
  have "lex (''null'' @ rest) = lex_word [CHR ''n''] (''ull'' @ rest)"
    by (simp add: lex_char_defs)
  also have "\<dots> = emit (word_token ''null'') (lex rest)"
    using lex_word_end [OF assms, of "''ull''" "[CHR ''n'']"] by (simp add: is_word_char_def)
  finally show "lex (''null'' @ rest) = map_option ((#) TNull) (lex rest)"
    by (simp add: word_token_def emit_Some)
  have "lex (''true'' @ rest) = lex_word [CHR ''t''] (''rue'' @ rest)"
    by (simp add: lex_char_defs)
  also have "\<dots> = emit (word_token ''true'') (lex rest)"
    using lex_word_end [OF assms, of "''rue''" "[CHR ''t'']"] by (simp add: is_word_char_def)
  finally show "lex (''true'' @ rest) = map_option ((#) TTrue) (lex rest)"
    by (simp add: word_token_def emit_Some)
  have "lex (''false'' @ rest) = lex_word [CHR ''f''] (''alse'' @ rest)"
    by (simp add: lex_char_defs)
  also have "\<dots> = emit (word_token ''false'') (lex rest)"
    using lex_word_end [OF assms, of "''alse''" "[CHR ''f'']"] by (simp add: is_word_char_def)
  finally show "lex (''false'' @ rest) = map_option ((#) TFalse) (lex rest)"
    by (simp add: word_token_def emit_Some)
qed

lemma digit_num_char: "is_digit c \<Longrightarrow> is_num_char c"
  by (auto simp: is_digit_def is_num_char_def)

lemma all_digits1_num: "all_digits1 s \<Longrightarrow> list_all is_num_char s"
  by (auto simp: all_digits1_def list_all_iff digit_num_char)

lemma valid_exp_num: "valid_exp s \<Longrightarrow> list_all is_num_char s"
  by (auto simp: valid_exp_def is_num_char_def dest!: all_digits1_num
      split: list.splits if_splits)

lemma takeWhile_digits_num: "list_all is_num_char (takeWhile is_digit r)"
  by (induction r) (auto simp: digit_num_char)

lemma digits_then_exp:
  assumes "valid_exp (dropWhile is_digit r)"
  shows "list_all is_num_char r"
proof -
  have "list_all is_num_char (takeWhile is_digit r)" by (rule takeWhile_digits_num)
  moreover have "list_all is_num_char (dropWhile is_digit r)" using assms by (rule valid_exp_num)
  ultimately have "list_all is_num_char (takeWhile is_digit r @ dropWhile is_digit r)"
    by (simp only: list_all_append)
  then show ?thesis by (simp only: takeWhile_dropWhile_id)
qed

lemma valid_frac_num: "valid_frac s \<Longrightarrow> list_all is_num_char s"
proof (cases s)
  case Nil
  then show ?thesis by simp
next
  case (Cons c r)
  assume v: "valid_frac s"
  show ?thesis
  proof (cases "c = CHR ''.''")
    case True
    with v Cons have "valid_exp (dropWhile is_digit r)" by (simp add: valid_frac_def)
    then have "list_all is_num_char r" by (rule digits_then_exp)
    with True Cons show ?thesis by (simp add: is_num_char_def)
  next
    case False
    with v Cons have "valid_exp s" by (simp add: valid_frac_def)
    then show ?thesis by (rule valid_exp_num)
  qed
qed

lemma digits_then_frac:
  assumes "valid_frac (dropWhile is_digit r)"
  shows "list_all is_num_char r"
proof -
  have "list_all is_num_char (takeWhile is_digit r)" by (rule takeWhile_digits_num)
  moreover have "list_all is_num_char (dropWhile is_digit r)" using assms by (rule valid_frac_num)
  ultimately have "list_all is_num_char (takeWhile is_digit r @ dropWhile is_digit r)"
    by (simp only: list_all_append)
  then show ?thesis by (simp only: takeWhile_dropWhile_id)
qed

lemma valid_int_num: "valid_int s \<Longrightarrow> \<exists>c r. s = c # r \<and> is_digit c \<and> list_all is_num_char r"
proof (cases s)
  case Nil
  assume "valid_int s"
  with Nil show ?thesis by (simp add: valid_int_def)
next
  case (Cons c r)
  assume v: "valid_int s"
  show ?thesis
  proof (cases "c = CHR ''0''")
    case True
    with v Cons have "valid_frac r" by (simp add: valid_int_def)
    then have "list_all is_num_char r" by (rule valid_frac_num)
    with True Cons show ?thesis by (simp add: is_digit_def)
  next
    case False
    with v Cons have "is_digit c" "valid_frac (dropWhile is_digit r)" by (simp_all add: valid_int_def)
    then show ?thesis using Cons digits_then_frac by blast
  qed
qed

lemma valid_number_shape:
  assumes "valid_number n"
  shows "\<exists>c r. n = c # r \<and> (c = CHR ''-'' \<or> is_digit c) \<and> list_all is_num_char r"
proof (cases n)
  case Nil
  with assms show ?thesis by (simp add: valid_number_def)
next
  case (Cons c r)
  show ?thesis
  proof (cases "c = CHR ''-''")
    case True
    with assms Cons have "valid_int r" by (simp add: valid_number_def)
    from valid_int_num [OF this] obtain d r' where "r = d # r'" "is_digit d" "list_all is_num_char r'"
      by blast
    then have "list_all is_num_char r" by (simp add: digit_num_char)
    with True Cons show ?thesis by simp
  next
    case False
    with assms Cons have "valid_int n" by (simp add: valid_number_def)
    from valid_int_num [OF this] Cons show ?thesis by auto
  qed
qed

lemma lex_num_run:
  "list_all is_num_char m \<Longrightarrow> lex_num acc (m @ rest) = lex_num (rev m @ acc) rest"
  by (induction m arbitrary: acc) simp_all

lemma lex_num_end:
  assumes "ends_value rest" and "valid_number (rev acc)"
  shows "lex_num acc rest = map_option ((#) (TNumber (rev acc))) (lex rest)"
  using assms(1)
  by (cases rule: ends_value_cases) (simp_all add: assms(2) lex_char_defs emit_Some option.map_comp comp_def)

lemma lex_number:
  assumes "valid_number n" and "ends_value rest"
  shows "lex (n @ rest) = map_option ((#) (TNumber n)) (lex rest)"
proof -
  from valid_number_shape [OF assms(1)] obtain c r where
    n: "n = c # r" and c: "c = CHR ''-'' \<or> is_digit c" and r: "list_all is_num_char r" by blast
  have "lex (n @ rest) = lex_num [c] (r @ rest)"
    using c by (auto simp: n lex_char_defs)
  also have "\<dots> = lex_num (rev r @ [c]) rest" using r by (rule lex_num_run)
  also have "\<dots> = map_option ((#) (TNumber (rev (rev r @ [c])))) (lex rest)"
    using assms by (intro lex_num_end) (simp_all add: n)
  finally show ?thesis by (simp add: n)
qed

lemma hex_val_hex_digit: "n < 16 \<Longrightarrow> hex_val (hex_digit n) = Some n"
proof -
  assume n: "n < 16"
  have "list_all (\<lambda>k. hex_val (hex_digit k) = Some k) [0..<16]" by code_simp
  then have "\<forall>k\<in>set [0..<16]. hex_val (hex_digit k) = Some k" by (simp only: list_all_iff)
  moreover have "n \<in> set [0..<16]" using n by simp
  ultimately show ?thesis by blast
qed

lemma unicode_escape_control:
  assumes "is_control c"
  shows "unicode_escape (CHR ''0'') (CHR ''0'') (hex_digit (of_char c div 16)) (hex_digit (of_char c)) = Some c"
proof -
  let ?n = "of_char c :: nat"
  from assms have n: "?n < 32" by (simp add: is_control_def)
  then have 1: "hex_val (hex_digit (?n div 16)) = Some (?n div 16)"
    by (intro hex_val_hex_digit) simp
  have "hex_digit ?n = hex_digit (?n mod 16)" by (simp add: hex_digit_def)
  then have 2: "hex_val (hex_digit ?n) = Some (?n mod 16)"
    by (simp add: hex_val_hex_digit)
  have 0: "hex_val (CHR ''0'') = Some 0" by (simp add: hex_val_def)
  have "char_of (16 * (?n div 16) + ?n mod 16) = c" by simp
  then show ?thesis by (simp add: unicode_escape_def 0 1 2)
qed

lemma lex_str_quote_char: "lex_str acc (quote_char c @ r) = lex_str (c # acc) r"
proof -
  consider "c = CHR 0x22" | "c = CHR 0x5C" | "c = CHR 0x08" | "c = CHR 0x0C" | "c = CHR 0x0A"
    | "c = CHR 0x0D" | "c = CHR 0x09"
    | "c \<noteq> CHR 0x22" "c \<noteq> CHR 0x5C" "c \<noteq> CHR 0x08" "c \<noteq> CHR 0x0C" "c \<noteq> CHR 0x0A"
      "c \<noteq> CHR 0x0D" "c \<noteq> CHR 0x09" "is_control c"
    | "c \<noteq> CHR 0x22" "c \<noteq> CHR 0x5C" "\<not> is_control c"
    by blast
  then show ?thesis
  proof cases
    case 8
    then show ?thesis
      by (simp add: quote_char_def unicode_escape_control)
  next
    case 9
    then have "quote_char c = [c]" by (auto simp: quote_char_def is_control_def)
    with 9 show ?thesis by simp
  qed (simp_all add: quote_char_def simple_escape_def)
qed

lemma lex_str_quoted:
  "lex_str acc (concat (map quote_char x) @ CHR 0x22 # rest)
     = map_option ((#) (TString (rev acc @ x))) (lex rest)"
proof (induction x arbitrary: acc)
  case Nil
  show ?case by (simp add: emit_Some)
next
  case (Cons c x)
  have "lex_str acc (concat (map quote_char (c # x)) @ CHR 0x22 # rest)
      = lex_str acc (quote_char c @ (concat (map quote_char x) @ CHR 0x22 # rest))" by simp
  also have "\<dots> = lex_str (c # acc) (concat (map quote_char x) @ CHR 0x22 # rest)"
    by (rule lex_str_quote_char)
  also have "\<dots> = map_option ((#) (TString (rev (c # acc) @ x))) (lex rest)" by (rule Cons.IH)
  finally show ?case by simp
qed

lemma lex_quote: "lex (quote x @ rest) = map_option ((#) (TString x)) (lex rest)"
proof -
  have "lex (quote x @ rest) = lex_str [] (concat (map quote_char x) @ CHR 0x22 # rest)"
    by (simp add: quote_def lex_char_defs)
  then show ?thesis by (simp add: lex_str_quoted)
qed

lemma ends_value_simps:
  "ends_value []" "ends_value (CHR '','' # cs)" "ends_value (CHR '']'' # cs)" "ends_value (CHR ''}'' # cs)"
  by (simp_all add: ends_value_def)

lemma lex_array_tail:
  assumes "\<And>x rest. x \<in> set ys \<Longrightarrow> ends_value rest \<Longrightarrow>
      lex (JSON_stringify x @ rest) = map_option ((@) (tokens_of x)) (lex rest)"
  shows "lex (concat (map (\<lambda>y. '','' @ JSON_stringify y) ys) @ CHR '']'' # rest)
       = map_option ((@) (concat (map (\<lambda>y. [TComma] @ tokens_of y) ys) @ [TRBracket])) (lex rest)"
  using assms
proof (induction ys)
  case Nil
  show ?case by (cases "lex rest") (simp_all add: lex_punct del: lex.simps)
next
  case (Cons y ys)
  let ?more = "concat (map (\<lambda>y. '','' @ JSON_stringify y) ys) @ CHR '']'' # rest"
  have e: "ends_value ?more" by (cases ys) (simp_all add: ends_value_simps)
  have "lex (concat (map (\<lambda>y. '','' @ JSON_stringify y) (y # ys)) @ CHR '']'' # rest)
      = map_option ((#) TComma) (lex (JSON_stringify y @ ?more))"
    by (simp add: lex_punct del: lex.simps)
  also have "lex (JSON_stringify y @ ?more) = map_option ((@) (tokens_of y)) (lex ?more)"
    using e by (intro Cons.prems) simp_all
  also have "lex ?more = map_option ((@) (concat (map (\<lambda>y. [TComma] @ tokens_of y) ys) @ [TRBracket])) (lex rest)"
    using Cons.prems by (intro Cons.IH) simp_all
  finally show ?case by (cases "lex rest") (simp_all del: lex.simps)
qed

lemma lex_object_tail:
  assumes "\<And>kv rest. kv \<in> set kvs \<Longrightarrow> ends_value rest \<Longrightarrow>
      lex (JSON_stringify (snd kv) @ rest) = map_option ((@) (tokens_of (snd kv))) (lex rest)"
  shows "lex (concat (map (\<lambda>kv. '','' @ (quote (fst kv) @ '':'' @ JSON_stringify (snd kv))) kvs) @ CHR ''}'' # rest)
       = map_option ((@) (concat (map (\<lambda>kv. [TComma] @ (TString (fst kv) # TColon # tokens_of (snd kv))) kvs) @ [TRBrace]))
           (lex rest)"
  using assms
proof (induction kvs)
  case Nil
  show ?case by (cases "lex rest") (simp_all add: lex_punct del: lex.simps)
next
  case (Cons kv kvs)
  let ?more = "concat (map (\<lambda>kv. '','' @ (quote (fst kv) @ '':'' @ JSON_stringify (snd kv))) kvs) @ CHR ''}'' # rest"
  have e: "ends_value ?more" by (cases kvs) (simp_all add: ends_value_simps)
  have "lex (concat (map (\<lambda>kv. '','' @ (quote (fst kv) @ '':'' @ JSON_stringify (snd kv))) (kv # kvs)) @ CHR ''}'' # rest)
      = map_option ((#) TComma) (lex (quote (fst kv) @ (CHR '':'' # JSON_stringify (snd kv) @ ?more)))"
    by (simp add: lex_punct del: lex.simps)
  also have "lex (quote (fst kv) @ (CHR '':'' # JSON_stringify (snd kv) @ ?more))
      = map_option ((#) (TString (fst kv))) (map_option ((#) TColon) (lex (JSON_stringify (snd kv) @ ?more)))"
    by (simp only: lex_quote lex_punct)
  also have "lex (JSON_stringify (snd kv) @ ?more) = map_option ((@) (tokens_of (snd kv))) (lex ?more)"
    using e by (intro Cons.prems) simp_all
  also have "lex ?more = map_option ((@) (concat (map (\<lambda>kv. [TComma] @ (TString (fst kv) # TColon # tokens_of (snd kv))) kvs) @ [TRBrace])) (lex rest)"
    using Cons.prems by (intro Cons.IH) simp_all
  finally show ?case by (cases "lex rest") (simp_all del: lex.simps)
qed

lemma lex_stringify:
  "wf_json v \<Longrightarrow> ends_value rest \<Longrightarrow>
     lex (JSON_stringify v @ rest) = map_option ((@) (tokens_of v)) (lex rest)"
proof (induction v arbitrary: rest)
  case JNull
  then show ?case using lex_literals(1) [of rest]
    by (cases "lex rest") (simp_all del: lex.simps)
next
  case (JBool b)
  then show ?case using lex_literals(2,3) [of rest]
    by (cases "lex rest"; cases b) (simp_all del: lex.simps)
next
  case (JNum n)
  then show ?case by (cases "lex rest") (simp_all add: lex_number del: lex.simps)
next
  case (JStr x)
  then show ?case by (cases "lex rest") (simp_all add: lex_quote del: lex.simps)
next
  case (JArr xs)
  show ?case
  proof (cases xs)
    case Nil
    then show ?thesis by (cases "lex rest") (simp_all add: lex_punct del: lex.simps)
  next
    case (Cons y ys)
    have ih: "\<And>x rest. x \<in> set (y # ys) \<Longrightarrow> ends_value rest \<Longrightarrow>
        lex (JSON_stringify x @ rest) = map_option ((@) (tokens_of x)) (lex rest)"
      using JArr Cons by (auto simp: list_all_iff)
    let ?r = "concat (map (\<lambda>y. '','' @ JSON_stringify y) ys) @ CHR '']'' # rest"
    have e: "ends_value ?r" by (cases ys) (simp_all add: ends_value_simps)
    have "lex (JSON_stringify (JArr xs) @ rest) = map_option ((#) TLBracket) (lex (JSON_stringify y @ ?r))"
      by (simp add: Cons join_Cons comp_def lex_punct del: lex.simps)
    also have "lex (JSON_stringify y @ ?r) = map_option ((@) (tokens_of y)) (lex ?r)"
      using e by (intro ih) simp_all
    also have "lex ?r = map_option ((@) (concat (map (\<lambda>y. [TComma] @ tokens_of y) ys) @ [TRBracket])) (lex rest)"
      using ih by (intro lex_array_tail) simp_all
    finally show ?thesis
      by (cases "lex rest") (simp_all add: Cons join_Cons comp_def del: lex.simps)
  qed
next
  case (JObj kvs)
  show ?case
  proof (cases kvs)
    case Nil
    then show ?thesis by (cases "lex rest") (simp_all add: lex_punct del: lex.simps)
  next
    case (Cons kv ps)
    have ih: "\<And>p rest. p \<in> set (kv # ps) \<Longrightarrow> ends_value rest \<Longrightarrow>
        lex (JSON_stringify (snd p) @ rest) = map_option ((@) (tokens_of (snd p))) (lex rest)"
    proof -
      fix p rest assume p: "p \<in> set (kv # ps)" and e: "ends_value rest"
      then have "wf_json (snd p)" using JObj.prems Cons by (auto simp: list_all_iff)
      moreover have "snd p \<in> Basic_BNFs.snds p" by (cases p) simp
      ultimately show "lex (JSON_stringify (snd p) @ rest) = map_option ((@) (tokens_of (snd p))) (lex rest)"
        using JObj.IH p e Cons by blast
    qed
    let ?r = "concat (map (\<lambda>kv. '','' @ (quote (fst kv) @ '':'' @ JSON_stringify (snd kv))) ps) @ CHR ''}'' # rest"
    have e: "ends_value ?r" by (cases ps) (simp_all add: ends_value_simps)
    have "lex (JSON_stringify (JObj kvs) @ rest)
        = map_option ((#) TLBrace) (lex (quote (fst kv) @ (CHR '':'' # JSON_stringify (snd kv) @ ?r)))"
      by (simp add: Cons join_Cons comp_def case_prod_beta lex_punct del: lex.simps)
    also have "lex (quote (fst kv) @ (CHR '':'' # JSON_stringify (snd kv) @ ?r))
        = map_option ((#) (TString (fst kv))) (map_option ((#) TColon) (lex (JSON_stringify (snd kv) @ ?r)))"
      by (simp only: lex_quote lex_punct)
    also have "lex (JSON_stringify (snd kv) @ ?r) = map_option ((@) (tokens_of (snd kv))) (lex ?r)"
      using e by (intro ih) simp_all
    also have "lex ?r = map_option ((@) (concat (map (\<lambda>kv. [TComma] @ (TString (fst kv) # TColon # tokens_of (snd kv))) ps) @ [TRBrace])) (lex rest)"
      using ih by (intro lex_object_tail) simp_all
    finally show ?thesis
      by (cases "lex rest") (simp_all add: Cons join_Cons comp_def del: lex.simps)
  qed
qed

text \<open>
  What \<open>JSON.stringify\<close> writes for a value that \<open>JSON.parse\<close> can return parses back to
  that value.
\<close>

theorem JSON_roundtrip: "wf_json v \<Longrightarrow> JSON_parse (JSON_stringify v) = Inr v"
proof -
  assume wf: "wf_json v"
  have "lex (JSON_stringify v @ []) = map_option ((@) (tokens_of v)) (lex [])"
    using wf by (rule lex_stringify) (simp add: ends_value_def)
  then have l: "lex (JSON_stringify v) = Some (tokens_of v)" by simp
  have "parse_value [] (tokens_of v @ []) = parse_after v [] []"
    using wf by (rule parse_tokens_of)
  then have "parse_value [] (tokens_of v) = Some v" by simp
  with l show ?thesis by (simp add: JSON_parse_def)
qed

subsection \<open>What JSON.parse returns is well formed\<close>

text \<open>
  The converse side of the round trip: whatever \<open>JSON.parse\<close> returns satisfies
  \<open>wf_json\<close>. The lexer emits a number token only for a JSON numeral, and the parser defines
  the properties of an object with \<open>prop_set\<close>, which never repeats a key. So \<open>wf_json\<close>
  holds of every value that reaches the program through \<open>JSON.parse\<close>.
\<close>

lemma emit_valid:
  assumes "emit t r = Some ts" and "\<And>n. t = Some (TNumber n) \<Longrightarrow> valid_number n"
    and "\<And>ts'. r = Some ts' \<Longrightarrow> numbers_valid ts'"
  shows "numbers_valid ts"
proof -
  from assms(1) obtain x ts' where x: "t = Some x" "r = Some ts'" "ts = x # ts'"
    by (auto simp: emit_def split: option.splits)
  from assms(2) x(1) have "case x of TNumber n \<Rightarrow> valid_number n | _ \<Rightarrow> True"
    by (cases x) auto
  with assms(3) [OF x(2)] x(3) show ?thesis by (simp add: numbers_valid_def)
qed

lemma punct_not_number: "punct_token c \<noteq> Some (TNumber n)"
  by (simp add: punct_token_def)

lemma word_not_number: "word_token w \<noteq> Some (TNumber n)"
  by (simp add: word_token_def)

lemma lex_numbers_valid:
  "lex s = Some ts \<Longrightarrow> numbers_valid ts"
  "lex_str acc s = Some ts \<Longrightarrow> numbers_valid ts"
  "lex_num acc s = Some ts \<Longrightarrow> numbers_valid ts"
  "lex_word acc s = Some ts \<Longrightarrow> numbers_valid ts"
proof (induction s and acc s and acc s and acc s arbitrary: ts and ts and ts and ts
    rule: lex_lex_str_lex_num_lex_word.induct)
  case 1
  then show ?case by (simp add: numbers_valid_def)
next
  case (2 c cs)
  consider "json_ws c" | "\<not> json_ws c" "c = CHR 0x22"
    | "\<not> json_ws c" "c \<noteq> CHR 0x22" "c = CHR ''-'' \<or> is_digit c"
    | "\<not> json_ws c" "c \<noteq> CHR 0x22" "\<not> (c = CHR ''-'' \<or> is_digit c)" "is_word_char c"
    | "\<not> json_ws c" "c \<noteq> CHR 0x22" "\<not> (c = CHR ''-'' \<or> is_digit c)" "\<not> is_word_char c"
    by blast
  then show ?case
  proof cases
    case 1
    with "2.prems" have "lex cs = Some ts" by simp
    with 1 show ?thesis by (rule "2.IH"(1))
  next
    case 2
    with "2.prems" have "lex_str [] cs = Some ts" by simp
    with 2 show ?thesis by (rule "2.IH"(2))
  next
    case 3
    with "2.prems" have "lex_num [c] cs = Some ts" by simp
    with 3 show ?thesis by (rule "2.IH"(3))
  next
    case 4
    with "2.prems" have "lex_word [c] cs = Some ts" by simp
    with 4 show ?thesis by (rule "2.IH"(4))
  next
    case 5
    with "2.prems" have "emit (punct_token c) (lex cs) = Some ts" by simp
    then show ?thesis
    proof (rule emit_valid)
      fix n assume "punct_token c = Some (TNumber n)"
      then show "valid_number n" by (simp add: punct_not_number)
    next
      fix ts' assume "lex cs = Some ts'"
      with 5 show "numbers_valid ts'" by (rule "2.IH"(5))
    qed
  qed
next
  case (3 acc)
  then show ?case by simp
next
  case (4 acc c cs)
  consider "c = CHR 0x22" | "c \<noteq> CHR 0x22" "c = CHR 0x5C"
    | "c \<noteq> CHR 0x22" "c \<noteq> CHR 0x5C" "\<not> is_control c"
    | "c \<noteq> CHR 0x22" "c \<noteq> CHR 0x5C" "is_control c"
    by blast
  then show ?case
  proof cases
    case 1
    with "4.prems" have "emit (Some (TString (rev acc))) (lex cs) = Some ts" by simp
    then show ?thesis
    proof (rule emit_valid)
      fix n assume "Some (TString (rev acc)) = Some (TNumber n)"
      then show "valid_number n" by simp
    next
      fix ts' assume "lex cs = Some ts'"
      with 1 show "numbers_valid ts'" by (rule "4.IH"(1))
    qed
  next
    case 2
    show ?thesis
    proof (cases cs)
      case Nil
      with 2 "4.prems" show ?thesis by simp
    next
      case (Cons e es)
      show ?thesis
      proof (cases "e = CHR ''u''")
        case True
        with 2 Cons "4.prems" obtain a b c' d r u where
          es: "es = a # b # c' # d # r" and u: "unicode_escape a b c' d = Some u"
          and eq: "lex_str (u # acc) r = Some ts"
          by (auto split: list.splits option.splits)
        from "4.IH"(2) [OF 2 Cons True] es u eq show ?thesis by auto
      next
        case False
        with 2 Cons "4.prems" obtain u where u: "simple_escape e = Some u"
          and eq: "lex_str (u # acc) es = Some ts"
          by (auto split: option.splits)
        from "4.IH"(3) [OF 2 Cons False u eq] show ?thesis .
      qed
    qed
  next
    case 3
    with "4.prems" have "lex_str (c # acc) cs = Some ts" by simp
    with 3 show ?thesis by (rule "4.IH"(4))
  next
    case 4
    with "4.prems" show ?thesis by simp
  qed
next
  case (5 acc)
  then show ?case by (auto simp: numbers_valid_def split: if_splits)
next
  case (6 acc c cs)
  consider "is_num_char c" | "\<not> is_num_char c" "\<not> valid_number (rev acc)"
    | "\<not> is_num_char c" "\<not> \<not> valid_number (rev acc)" "json_ws c"
    | "\<not> is_num_char c" "\<not> \<not> valid_number (rev acc)" "\<not> json_ws c"
    by blast
  then show ?case
  proof cases
    case 1
    with "6.prems" have "lex_num (c # acc) cs = Some ts" by simp
    with 1 show ?thesis by (rule "6.IH"(1))
  next
    case 2
    with "6.prems" show ?thesis by simp
  next
    case 3
    with "6.prems" have "emit (Some (TNumber (rev acc))) (lex cs) = Some ts" by simp
    then show ?thesis
    proof (rule emit_valid)
      fix n assume "Some (TNumber (rev acc)) = Some (TNumber n)"
      with 3 show "valid_number n" by simp
    next
      fix ts' assume "lex cs = Some ts'"
      with 3 show "numbers_valid ts'" by (rule "6.IH"(2))
    qed
  next
    case 4
    with "6.prems" have "emit (Some (TNumber (rev acc))) (emit (punct_token c) (lex cs)) = Some ts"
      by simp
    then show ?thesis
    proof (rule emit_valid)
      fix n assume "Some (TNumber (rev acc)) = Some (TNumber n)"
      with 4 show "valid_number n" by simp
    next
      fix ts' assume "emit (punct_token c) (lex cs) = Some ts'"
      then show "numbers_valid ts'"
      proof (rule emit_valid)
        fix n assume "punct_token c = Some (TNumber n)"
        then show "valid_number n" by (simp add: punct_not_number)
      next
        fix ts'' assume "lex cs = Some ts''"
        with 4 show "numbers_valid ts''" by (rule "6.IH"(3))
      qed
    qed
  qed
next
  case (7 acc)
  then have "emit (word_token (rev acc)) (Some []) = Some ts" by simp
  then show ?case
  proof (rule emit_valid)
    fix n assume "word_token (rev acc) = Some (TNumber n)"
    then show "valid_number n" by (simp add: word_not_number)
  next
    fix ts' :: "token list" assume "Some [] = Some ts'"
    then show "numbers_valid ts'" by (auto simp: numbers_valid_def)
  qed
next
  case (8 acc c cs)
  consider "is_word_char c" | "\<not> is_word_char c" "json_ws c" | "\<not> is_word_char c" "\<not> json_ws c"
    by blast
  then show ?case
  proof cases
    case 1
    with "8.prems" have "lex_word (c # acc) cs = Some ts" by simp
    with 1 show ?thesis by (rule "8.IH"(1))
  next
    case 2
    with "8.prems" have "emit (word_token (rev acc)) (lex cs) = Some ts" by simp
    then show ?thesis
    proof (rule emit_valid)
      fix n assume "word_token (rev acc) = Some (TNumber n)"
      then show "valid_number n" by (simp add: word_not_number)
    next
      fix ts' assume "lex cs = Some ts'"
      with 2 show "numbers_valid ts'" by (rule "8.IH"(2))
    qed
  next
    case 3
    with "8.prems" have "emit (word_token (rev acc)) (emit (punct_token c) (lex cs)) = Some ts"
      by simp
    then show ?thesis
    proof (rule emit_valid)
      fix n assume "word_token (rev acc) = Some (TNumber n)"
      then show "valid_number n" by (simp add: word_not_number)
    next
      fix ts' assume "emit (punct_token c) (lex cs) = Some ts'"
      then show "numbers_valid ts'"
      proof (rule emit_valid)
        fix n assume "punct_token c = Some (TNumber n)"
        then show "valid_number n" by (simp add: punct_not_number)
      next
        fix ts'' assume "lex cs = Some ts''"
        with 3 show "numbers_valid ts''" by (rule "8.IH"(3))
      qed
    qed
  qed
qed

lemma prop_set_keys: "set (map fst (prop_set k v kvs)) = insert k (set (map fst kvs))"
proof (induction kvs)
  case Nil
  then show ?case by simp
next
  case (Cons kv kvs)
  obtain k' v' where kv: "kv = (k', v')" by (cases kv)
  show ?case
  proof (cases "k' = k")
    case True
    with kv show ?thesis by auto
  next
    case False
    with kv Cons.IH show ?thesis by auto
  qed
qed

lemma prop_set_distinct: "distinct (map fst kvs) \<Longrightarrow> distinct (map fst (prop_set k v kvs))"
proof (induction kvs)
  case Nil
  then show ?case by simp
next
  case (Cons kv kvs)
  obtain k' v' where kv: "kv = (k', v')" by (cases kv)
  show ?case
  proof (cases "k' = k")
    case True
    with Cons.prems kv show ?thesis by simp
  next
    case False
    from Cons.prems kv have "k' \<notin> set (map fst kvs)" "distinct (map fst kvs)" by simp_all
    with False Cons.IH kv prop_set_keys [of k v kvs] show ?thesis by simp
  qed
qed

lemma prop_set_values:
  "wf_json v \<Longrightarrow> list_all (\<lambda>kv. wf_json (snd kv)) kvs
     \<Longrightarrow> list_all (\<lambda>kv. wf_json (snd kv)) (prop_set k v kvs)"
  by (induction kvs) auto

lemma prop_set_wf: "wf_json v \<Longrightarrow> wf_json (JObj kvs) \<Longrightarrow> wf_json (JObj (prop_set k v kvs))"
  by (simp add: prop_set_distinct prop_set_values)

lemma numbers_valid_Cons:
  "numbers_valid (t # ts) = ((case t of TNumber n \<Rightarrow> valid_number n | _ \<Rightarrow> True) \<and> numbers_valid ts)"
  by (simp add: numbers_valid_def)

lemma parse_wf:
  "(parse_value stk ts = Some r \<longrightarrow> numbers_valid ts \<longrightarrow> list_all frame_wf stk \<longrightarrow> wf_json r) \<and>
   (parse_after v stk ts = Some r \<longrightarrow> numbers_valid ts \<longrightarrow> list_all frame_wf stk \<longrightarrow> wf_json v
      \<longrightarrow> wf_json r)"
proof (induction "length ts" arbitrary: ts stk v r rule: less_induct)
  case less
  have IH1: "wf_json r'" if "length ts' < length ts" "parse_value stk' ts' = Some r'"
    "numbers_valid ts'" "list_all frame_wf stk'" for ts' stk' r'
    using less [of ts' stk' r' JNull] that by simp
  have IH2: "wf_json r'" if "length ts' < length ts" "parse_after v' stk' ts' = Some r'"
    "numbers_valid ts'" "list_all frame_wf stk'" "wf_json v'" for ts' stk' r' v'
    using less [of ts' stk' r' v'] that by simp
  have A: "wf_json r" if p: "parse_value stk ts = Some r" and n: "numbers_valid ts"
    and f: "list_all frame_wf stk"
  proof (cases ts)
    case Nil
    with p show ?thesis by simp
  next
    case (Cons t ts1)
    show ?thesis
    proof (cases t)
      case TLBracket
      show ?thesis
      proof (cases ts1)
        case Nil
        with p Cons TLBracket have "parse_value (FArr [] # stk) [] = Some r" by simp
        then show ?thesis by simp
      next
        case c2: (Cons t2 ts2)
        show ?thesis
        proof (cases "t2 = TRBracket")
          case True
          with p Cons TLBracket c2 have "parse_after (JArr []) stk ts2 = Some r" by simp
          moreover from n Cons c2 have "numbers_valid ts2" by (simp add: numbers_valid_Cons)
          ultimately show ?thesis using IH2 [of ts2 "JArr []" stk r] f Cons c2 by simp
        next
          case False
          with p Cons TLBracket c2 have "parse_value (FArr [] # stk) ts1 = Some r"
            by (cases t2) simp_all
          moreover from n Cons have "numbers_valid ts1" by (simp add: numbers_valid_Cons)
          ultimately show ?thesis using IH1 [of ts1 "FArr [] # stk" r] f Cons by simp
        qed
      qed
    next
      case TLBrace
      from p Cons TLBrace consider
          ts2 where "ts1 = TRBrace # ts2" "parse_after (JObj []) stk ts2 = Some r"
        | k ts2 where "ts1 = TString k # TColon # ts2" "parse_value (FObj [] k # stk) ts2 = Some r"
        by (auto split: list.splits token.splits)
      then show ?thesis
      proof cases
        case 1
        moreover from n Cons 1 have "numbers_valid ts2" by (simp add: numbers_valid_Cons)
        ultimately show ?thesis using IH2 [of ts2 "JObj []" stk r] f Cons by simp
      next
        case 2
        moreover from n Cons 2 have "numbers_valid ts2" by (simp add: numbers_valid_Cons)
        ultimately show ?thesis using IH1 [of ts2 "FObj [] k # stk" r] f Cons by simp
      qed
    next
      case (TNumber x)
      with p Cons have "parse_after (JNum x) stk ts1 = Some r" by simp
      moreover from n Cons TNumber have "numbers_valid ts1" "valid_number x"
        by (simp_all add: numbers_valid_Cons)
      ultimately show ?thesis using IH2 [of ts1 "JNum x" stk r] f Cons by simp
    next
      case (TString x)
      with p Cons have "parse_after (JStr x) stk ts1 = Some r" by simp
      moreover from n Cons have "numbers_valid ts1" by (simp add: numbers_valid_Cons)
      ultimately show ?thesis using IH2 [of ts1 "JStr x" stk r] f Cons by simp
    next
      case TTrue
      with p Cons have "parse_after (JBool True) stk ts1 = Some r" by simp
      moreover from n Cons have "numbers_valid ts1" by (simp add: numbers_valid_Cons)
      ultimately show ?thesis using IH2 [of ts1 "JBool True" stk r] f Cons by simp
    next
      case TFalse
      with p Cons have "parse_after (JBool False) stk ts1 = Some r" by simp
      moreover from n Cons have "numbers_valid ts1" by (simp add: numbers_valid_Cons)
      ultimately show ?thesis using IH2 [of ts1 "JBool False" stk r] f Cons by simp
    next
      case TNull
      with p Cons have "parse_after JNull stk ts1 = Some r" by simp
      moreover from n Cons have "numbers_valid ts1" by (simp add: numbers_valid_Cons)
      ultimately show ?thesis using IH2 [of ts1 JNull stk r] f Cons by simp
    qed (use p Cons in simp_all)
  qed
  have B: "wf_json r" if p: "parse_after v stk ts = Some r" and n: "numbers_valid ts"
    and f: "list_all frame_wf stk" and w: "wf_json v"
  proof (cases stk)
    case Nil
    with p w show ?thesis by (simp split: if_splits)
  next
    case sc: (Cons fr stk1)
    show ?thesis
    proof (cases ts)
      case Nil
      with p sc show ?thesis by simp
    next
      case (Cons t ts1)
      from n Cons have n1: "numbers_valid ts1" by (simp add: numbers_valid_Cons)
      from f sc have f1: "list_all frame_wf stk1" "frame_wf fr" by simp_all
      show ?thesis
      proof (cases fr)
        case (FArr es)
        from p sc Cons FArr consider "t = TComma" "parse_value (FArr (v # es) # stk1) ts1 = Some r"
          | "t = TRBracket" "parse_after (JArr (rev (v # es))) stk1 ts1 = Some r"
          by (cases t) simp_all
        then show ?thesis
        proof cases
          case 1
          then show ?thesis using IH1 [of ts1 "FArr (v # es) # stk1" r] n1 f1 w FArr Cons by simp
        next
          case 2
          then show ?thesis using IH2 [of ts1 "JArr (rev (v # es))" stk1 r] n1 f1 w FArr Cons
            by simp
        qed
      next
        case (FObj kvs k)
        from f1 FObj w have pw: "wf_json (JObj (prop_set k v kvs))"
          using prop_set_wf [of v kvs k] by simp
        from p sc Cons FObj consider
            k' ts2 where "t = TComma" "ts1 = TString k' # TColon # ts2"
              "parse_value (FObj (prop_set k v kvs) k' # stk1) ts2 = Some r"
          | "t = TRBrace" "parse_after (JObj (prop_set k v kvs)) stk1 ts1 = Some r"
          by (cases t) (auto split: list.splits token.splits)
        then show ?thesis
        proof cases
          case 1
          moreover from n1 1 have "numbers_valid ts2" by (simp add: numbers_valid_Cons)
          ultimately show ?thesis
            using IH1 [of ts2 "FObj (prop_set k v kvs) k' # stk1" r] f1 pw Cons by simp
        next
          case 2
          then show ?thesis using IH2 [of ts1 "JObj (prop_set k v kvs)" stk1 r] n1 f1 pw Cons
            by simp
        qed
      qed
    qed
  qed
  from A B show ?case by blast
qed

lemma JSON_parse_wf: "JSON_parse text = Inr v \<Longrightarrow> wf_json v"
proof -
  assume p: "JSON_parse text = Inr v"
  then obtain ts where l: "lex text = Some ts" and q: "parse_value [] ts = Some v"
    by (auto simp: JSON_parse_def split: option.splits)
  from l have "numbers_valid ts" by (rule lex_numbers_valid(1))
  with q show ?thesis using parse_wf [of "[]" ts v] by simp
qed

section \<open>The request handler and the page\<close>



lemma respond_normalized:
  assumes "\<not> truthy_opt (rpc_error r)" and "normalize (parts_of r) = Inr (msgs, txt)"
  shows "respond e r = \<lparr>status = 200,
     body = ResultBody msgs txt (if NODE_ENV e = Some ''development'' then Some r else None)\<rparr>"
  using assms by (simp add: respond_def)

lemma try_block_result:
  "try_block (Resolved \<lparr>status = 200, body = ResultBody msgs txt raw\<rparr>) =
     (if msgs = [] then Inl (Error no_ui_message) else Inr (msgs, assistantContent (Some txt) msgs))"
  by (simp add: try_block_def res_ok_def data_error_def data_messages_def data_text_def truthy_opt_def)

text \<open>
  Claim C3, as amended. A turn is submitted, the route answers from an agent result without
  error, and normalization has produced the messages \<open>msgs\<close> and the text \<open>t\<close>. The page
  ends in the state \<open>error\<close> with the message of line 162 exactly when \<open>msgs\<close> is empty:
  the text plays no part.
\<close>

theorem C3_no_ui_error:
  assumes "trim prompt \<noteq> []" and "state s \<noteq> thinking"
    and "fetch' (request_body (trim prompt) (if isRefinement then history s else [])) = Resolved (respond e r)"
    and "\<not> truthy_opt (rpc_error r)" and "normalize (parts_of r) = Inr (msgs, t)"
  shows "(state (fst (submit prompt isRefinement fetch' s)) = error
          \<and> errorMsg (fst (submit prompt isRefinement fetch' s)) = no_ui_message)
       \<longleftrightarrow> msgs = []"
proof -
  have "try_block (fetch' (request_body (trim prompt) (if isRefinement then history s else []))) =
     (if msgs = [] then Inl (Error no_ui_message) else Inr (msgs, assistantContent (Some t) msgs))"
    by (simp only: assms(3) respond_normalized [OF assms(4,5)] try_block_result)
  then show ?thesis
    using assms(1,2) by (auto simp: submit_def Let_def Error_def)
qed

lemma submit_outcomes:
  assumes "trim prompt \<noteq> []" and "state s \<noteq> thinking"
  shows "(\<exists>msgs a. try_block (fetch' (request_body (trim prompt) (if isRefinement then history s else [])))
              = Inr (msgs, a)
            \<and> state (fst (submit prompt isRefinement fetch' s)) = rendered
            \<and> a2uiMessages' (fst (submit prompt isRefinement fetch' s)) = msgs
            \<and> history (fst (submit prompt isRefinement fetch' s))
               = (if isRefinement then history s else [])
                 @ [\<lparr>role = user, content = trim prompt\<rparr>, \<lparr>role = assistant, content = a\<rparr>])
       \<or> (\<exists>err. try_block (fetch' (request_body (trim prompt) (if isRefinement then history s else [])))
              = Inl err
            \<and> state (fst (submit prompt isRefinement fetch' s)) = error
            \<and> a2uiMessages' (fst (submit prompt isRefinement fetch' s))
               = (if isRefinement then a2uiMessages' s else [])
            \<and> history (fst (submit prompt isRefinement fetch' s))
               = (if isRefinement then history s else []))"
proof (cases "try_block (fetch' (request_body (trim prompt) (if isRefinement then history s else [])))")
  case (Inl err)
  with assms show ?thesis by (simp add: submit_def Let_def)
next
  case (Inr res)
  then obtain msgs a where "res = (msgs, a)" by (cases res)
  with Inr assms show ?thesis by (simp add: submit_def Let_def)
qed

lemma submit_blocked:
  "trim prompt = [] \<or> state s = thinking \<Longrightarrow> submit prompt isRefinement fetch' s = (s, [])"
  by (auto simp: submit_def Let_def)

lemma reachable_invariant:
  "reachable s \<Longrightarrow>
     state s \<noteq> thinking \<and> even (length (history s))
     \<and> (state s = idle \<longrightarrow> history s = [] \<and> a2uiMessages' s = [])"
proof (induction rule: reachable.induct)
  case start
  show ?case by (simp add: initial_def)
next
  case (typing s v)
  then show ?case by simp
next
  case (new_ui s p fetch')
  show ?case
  proof (cases "trim p = []")
    case True
    then show ?thesis using new_ui by (simp add: submit_blocked)
  next
    case False
    with new_ui have "state s \<noteq> thinking" by simp
    from submit_outcomes [OF False this, of fetch' False] show ?thesis by auto
  qed
next
  case (refine s v fetch')
  then have "state s \<noteq> thinking" by simp
  from submit_outcomes [OF refine(3) this, of fetch' True] refine show ?case by auto
next
  case (again s)
  show ?case by (simp add: reset_def)
qed


lemma after_fetch_throws_not_ok: "\<not> res_ok (after_fetch e (Throws fetchErr))"
  by (simp add: after_fetch_def caught_def res_ok_def)

lemma server_throws:
  assumes "trimmed \<noteq> []" and "trim trimmed = trimmed"
    and "agent (rpcPayload requestId messageId trimmed) = Throws fetchErr"
  shows "try_block (server e requestId messageId agent (request_body trimmed h))
     = Inl (Error (''Server error: '' @ decimal (status (after_fetch e (Throws fetchErr)))))"
proof -
  have "\<not> prompt_missing (Some (JStr trimmed))"
    using assms(1,2) by (simp add: prompt_missing_def truthy_opt_def typeof_def)
  then have "server e requestId messageId agent (request_body trimmed h)
      = Resolved (after_fetch e (Throws fetchErr))"
    using assms(3) by (simp add: server_def POST_def request_body_def)
  then show ?thesis using after_fetch_throws_not_ok [of e fetchErr] by (simp add: try_block_def)
qed

text \<open>
  Claim C8. In a state that the controls of the page can reach, a turn is submitted from
  the view that offers it, and the \<open>fetch\<close> of the route to the agent throws (a refused
  connection, the timeout of 60 seconds, or any other exception). The turn ends in the
  state \<open>error\<close>, and the thread and the messages last produced are what they were.
\<close>

theorem C8_transport_failure:
  assumes "reachable s"
    and "(state s = idle \<and> \<not> isRefinement) \<or> (state s = rendered \<and> isRefinement)"
    and "trim prompt \<noteq> []"
    and "agent (rpcPayload requestId messageId (trim prompt)) = Throws fetchErr"
  shows "state (fst (submit prompt isRefinement (server e requestId messageId agent) s)) = error
       \<and> history (fst (submit prompt isRefinement (server e requestId messageId agent) s)) = history s
       \<and> a2uiMessages' (fst (submit prompt isRefinement (server e requestId messageId agent) s))
         = a2uiMessages' s"
proof -
  from reachable_invariant [OF assms(1)]
  have inv: "state s \<noteq> thinking"
    "state s = idle \<longrightarrow> history s = [] \<and> a2uiMessages' s = []" by simp_all
  from assms(2) inv(2) have h: "(if isRefinement then history s else []) = history s"
    "(if isRefinement then a2uiMessages' s else []) = a2uiMessages' s" by auto
  have "\<exists>err. try_block (server e requestId messageId agent
      (request_body (trim prompt) (if isRefinement then history s else []))) = Inl err"
    using server_throws [of "trim prompt" agent requestId messageId fetchErr e, OF assms(3) trim_trim assms(4)]
    by blast
  with submit_outcomes [OF assms(3) inv(1), of "server e requestId messageId agent" isRefinement]
  show ?thesis unfolding h by auto
qed

section \<open>The renderer\<close>

lemma context_set_lookup:
  "map_of (context_set k v cs) k' = (if k' = k then Some v else map_of cs k')"
  by (induction cs) auto

lemma apply_message_keeps:
  assumes "map_of ctxs sid = Some sf" and "surfaceId sf = sid" and "rootComponentId sf = r"
  shows "\<exists>sf'. map_of (apply_message ctxs m) sid = Some sf' \<and> surfaceId sf' = sid
               \<and> rootComponentId sf' = r"
proof (cases m)
  case (BeginRendering sid' r' st)
  then show ?thesis using assms
    by (cases "map_of ctxs sid'") (simp_all add: apply_message_def)
next
  case (SurfaceUpdate sid' ns)
  then show ?thesis using assms
    by (cases "map_of ctxs sid'") (auto simp: apply_message_def context_set_lookup)
next
  case (DataModelUpdate sid' pth c)
  then show ?thesis using assms
    by (cases "map_of ctxs sid'") (auto simp: apply_message_def context_set_lookup)
qed

lemma fold_apply_keeps:
  assumes "map_of ctxs sid = Some sf" and "surfaceId sf = sid" and "rootComponentId sf = r"
  shows "\<exists>sf'. map_of (fold (\<lambda>m c. apply_message c m) ms ctxs) sid = Some sf'
               \<and> surfaceId sf' = sid \<and> rootComponentId sf' = r"
  using assms
proof (induction ms arbitrary: ctxs sf)
  case Nil
  then show ?case by simp
next
  case (Cons m ms)
  from apply_message_keeps [OF Cons.prems, of m]
  obtain sf' where "map_of (apply_message ctxs m) sid = Some sf'" "surfaceId sf' = sid"
    "rootComponentId sf' = r" by blast
  from Cons.IH [OF this] show ?case by simp
qed

lemma no_begin_message:
  assumes "has_beginRendering x = Inr False"
  shows "as_message x = None \<or> (\<exists>sid ns. as_message x = Some (SurfaceUpdate sid ns))
       \<or> (\<exists>sid pth c. as_message x = Some (DataModelUpdate sid pth c))"
proof -
  have "get_prop x ''beginRendering'' = None"
    using assms by (cases x) (auto simp: has_beginRendering_def map_of_eq_None_iff)
  then show ?thesis
    by (auto simp: as_message_def split: option.split json.split prod.split)
qed

lemma fold_no_begin:
  assumes "\<forall>x\<in>set pre. has_beginRendering x = Inr False"
  shows "fold (\<lambda>m c. apply_message c m) (List.map_filter as_message pre) [] = []"
  using assms
proof (induction pre)
  case Nil
  then show ?case by (simp add: List.map_filter_simps)
next
  case (Cons x pre)
  then have "has_beginRendering x = Inr False" by simp
  from no_begin_message [OF this] Cons show ?case
    by (auto simp: List.map_filter_simps apply_message_def)
qed

lemma map_filter_append: "List.map_filter f (xs @ ys) = List.map_filter f xs @ List.map_filter f ys"
  by (simp add: List.map_filter_def)

lemma find_begin_first:
  assumes "\<forall>x\<in>set pre. has_beginRendering x = Inr False" and "has_beginRendering m = Inr True"
  shows "find_begin (pre @ m # post) = Inr (Some m)"
  using assms by (induction pre) auto

text \<open>
  Claim C9. The first message of the list with a key \<open>beginRendering\<close> declares the
  surface \<open>sid\<close> with the root \<open>r\<close>; the list may hold other such messages after it. The
  surface mounted is the one the processor holds under \<open>sid\<close>, and its root is \<open>r\<close>.
\<close>

theorem C9_first_begin_rendering:
  assumes "\<forall>x\<in>set pre. has_beginRendering x = Inr False"
    and "map_of kvs ''beginRendering'' = Some (JObj b)"
    and "map_of b ''surfaceId'' = Some (JStr sid)" and "map_of b ''root'' = Some (JStr r)"
  shows "\<exists>sf. A2UIRenderer (pre @ JObj kvs # post) = Mounted (Some (JStr sid)) sf
            \<and> surfaceId sf = sid \<and> rootComponentId sf = r"
proof -
  let ?m = "JObj kvs"
  let ?f = "\<lambda>m c. apply_message c m"
  have hb: "has_beginRendering ?m = Inr True"
    using assms(2) by (auto simp: has_beginRendering_def dest: map_of_SomeD intro: rev_image_eqI)
  have fb: "find_begin (pre @ ?m # post) = Inr (Some ?m)"
    using assms(1) hb by (rule find_begin_first)
  have am: "as_message ?m = Some (BeginRendering sid r (map_of b ''styles''))"
    by (simp add: as_message_def assms(2-4) as_string_def)
  have ap: "apply_message [] (BeginRendering sid r (map_of b ''styles''))
      = [(sid, \<lparr>surfaceId = sid, rootComponentId = r, components = [], dataModel = JObj [],
              styles = map_of b ''styles''\<rparr>)]"
    by (simp add: apply_message_def)
  have "processMessages (pre @ ?m # post)
      = fold ?f (List.map_filter as_message post)
          (apply_message (fold ?f (List.map_filter as_message pre) []) (BeginRendering sid r (map_of b ''styles'')))"
    by (simp add: processMessages_def map_filter_append List.map_filter_simps am)
  also have "\<dots> = fold ?f (List.map_filter as_message post)
      [(sid, \<lparr>surfaceId = sid, rootComponentId = r, components = [], dataModel = JObj [],
              styles = map_of b ''styles''\<rparr>)]"
    by (simp only: fold_no_begin [OF assms(1)] ap)
  finally have pm: "processMessages (pre @ ?m # post) = fold ?f (List.map_filter as_message post)
      [(sid, \<lparr>surfaceId = sid, rootComponentId = r, components = [], dataModel = JObj [],
              styles = map_of b ''styles''\<rparr>)]" .
  have "\<exists>sf. map_of (processMessages (pre @ ?m # post)) sid = Some sf \<and> surfaceId sf = sid
      \<and> rootComponentId sf = r"
  proof -
    let ?sf0 = "\<lparr>surfaceId = sid, rootComponentId = r, components = [], dataModel = JObj [],
              styles = map_of b ''styles''\<rparr>"
    have "map_of [(sid, ?sf0)] sid = Some ?sf0" by simp
    moreover have "surfaceId ?sf0 = sid" by simp
    moreover have "rootComponentId ?sf0 = r" by simp
    ultimately show ?thesis unfolding pm by (rule fold_apply_keeps)
  qed
  then obtain sf where sf: "map_of (processMessages (pre @ ?m # post)) sid = Some sf"
    "surfaceId sf = sid" "rootComponentId sf = r" by blast
  have "A2UIRenderer (pre @ ?m # post) = Mounted (Some (JStr sid)) sf"
    by (simp add: A2UIRenderer_def fb assms(2,3) as_string_def sf(1))
  with sf show ?thesis by blast
qed

section \<open>Turns on concrete inputs\<close>

lemmas eval_page = submit_def Let_def try_block_def res_ok_def data_error_def data_messages_def
  data_text_def assistantContent_def answering_def request_body_def initial_def Error_def
  truthy_opt_def quote_def quote_char_def is_control_def no_ui_message_def

text \<open>
  An agent that answers with the text part \<open>hello\<close> only.
\<close>

theorem C3_no_ui_error_witness:
  "normalize (parts_of \<lparr>rpc_error = None, status_message_parts = Some [text_part ''hello''],
        artifact_parts = None, message_parts = None\<rparr>) = Inr ([], ''hello'')
   \<and> state (fst (submit ''make a form'' False
        (answering (Resolved (respond default_env
           \<lparr>rpc_error = None, status_message_parts = Some [text_part ''hello''],
             artifact_parts = None, message_parts = None\<rparr>)))
        initial)) = error
   \<and> errorMsg (fst (submit ''make a form'' False
        (answering (Resolved (respond default_env
           \<lparr>rpc_error = None, status_message_parts = Some [text_part ''hello''],
             artifact_parts = None, message_parts = None\<rparr>)))
        initial)) = no_ui_message"
proof -
  let ?r = "\<lparr>rpc_error = None, status_message_parts = Some [text_part ''hello''],
        artifact_parts = None, message_parts = None\<rparr>"
  let ?f = "answering (Resolved (respond default_env ?r)) :: (string \<times> json) list \<Rightarrow> fetched"
  have 1: "trim ''make a form'' \<noteq> []" by (simp add: eval_string)
  have 2: "state initial \<noteq> thinking" by (simp add: initial_def)
  have 3: "?f (request_body (trim ''make a form'') (if False then history initial else []))
      = Resolved (respond default_env ?r)" by (simp add: answering_def)
  have 4: "\<not> truthy_opt (rpc_error ?r)" by (simp add: truthy_opt_def)
  have 5: "normalize (parts_of ?r) = Inr ([], ''hello'')"
    by (simp add: eval_string eval_norm parts_of_def)
  from C3_no_ui_error [of "''make a form''" initial ?f False default_env ?r "[]" "''hello''",
      OF 1 2 3 4 5] 5
  show ?thesis by blast
qed

text \<open>
  Claim C3 as stated fails on a turn with no message and an informative text: it is
  reported with the message of line 162 all the same.
\<close>

theorem C3_counterexample:
  "normalize [text_part ''Sorry, I cannot build that.''] = Inr ([], ''Sorry, I cannot build that.'')
   \<and> ''Sorry, I cannot build that.'' \<noteq> []
   \<and> state (fst (submit ''make a form'' False
        (answering (Resolved \<lparr>status = 200, body = ResultBody [] ''Sorry, I cannot build that.'' None\<rparr>))
        initial)) = error
   \<and> errorMsg (fst (submit ''make a form'' False
        (answering (Resolved \<lparr>status = 200, body = ResultBody [] ''Sorry, I cannot build that.'' None\<rparr>))
        initial)) = no_ui_message"
  by (simp add: eval_string eval_norm eval_page)


text \<open>
  A refinement that times out, after a first turn that succeeded.
\<close>

theorem C8_transport_failure_witness:
  "history (fst (submit ''make a form'' False
      (answering (Resolved \<lparr>status = 200, body = ResultBody [JObj []] ''Done'' None\<rparr>)) initial))
     \<noteq> []
   \<and> state (fst (submit ''add a phone field'' True
        (server default_env ''req-2'' ''msg-2-abc''
           (answering (Throws \<lparr>is_Error = True, name = ''TimeoutError'',
              message = ''The operation was aborted due to timeout'', cause_code = None\<rparr>)))
        (fst (submit ''make a form'' False
           (answering (Resolved \<lparr>status = 200, body = ResultBody [JObj []] ''Done'' None\<rparr>))
           initial)))) = error
   \<and> history (fst (submit ''add a phone field'' True
        (server default_env ''req-2'' ''msg-2-abc''
           (answering (Throws \<lparr>is_Error = True, name = ''TimeoutError'',
              message = ''The operation was aborted due to timeout'', cause_code = None\<rparr>)))
        (fst (submit ''make a form'' False
           (answering (Resolved \<lparr>status = 200, body = ResultBody [JObj []] ''Done'' None\<rparr>))
           initial))))
     = history (fst (submit ''make a form'' False
        (answering (Resolved \<lparr>status = 200, body = ResultBody [JObj []] ''Done'' None\<rparr>)) initial))
   \<and> a2uiMessages' (fst (submit ''add a phone field'' True
        (server default_env ''req-2'' ''msg-2-abc''
           (answering (Throws \<lparr>is_Error = True, name = ''TimeoutError'',
              message = ''The operation was aborted due to timeout'', cause_code = None\<rparr>)))
        (fst (submit ''make a form'' False
           (answering (Resolved \<lparr>status = 200, body = ResultBody [JObj []] ''Done'' None\<rparr>))
           initial))))
     = [JObj []]"
proof -
  let ?f = "answering (Resolved \<lparr>status = 200, body = ResultBody [JObj []] ''Done'' None\<rparr>)
    :: (string \<times> json) list \<Rightarrow> fetched"
  let ?s = "fst (submit ''make a form'' False ?f initial)"
  let ?t = "\<lparr>is_Error = True, name = ''TimeoutError'',
              message = ''The operation was aborted due to timeout'', cause_code = None\<rparr>"
  let ?agent = "answering (Throws ?t) :: json \<Rightarrow> agent_reply"
  have 0: "state initial = idle" by (simp add: initial_def)
  have 1: "reachable ?s" using reachable.start 0 by (rule reachable.new_ui)
  have st: "state ?s = rendered" by (simp add: eval_string eval_page)
  then have 2: "(state ?s = idle \<and> \<not> True) \<or> (state ?s = rendered \<and> True)" by simp
  have 3: "trim ''add a phone field'' \<noteq> []" by (simp add: eval_string)
  have 4: "?agent (rpcPayload ''req-2'' ''msg-2-abc'' (trim ''add a phone field'')) = Throws ?t"
    by (simp add: answering_def)
  have 5: "history ?s \<noteq> []" by (simp add: eval_string eval_page)
  have 6: "a2uiMessages' ?s = [JObj []]" by (simp add: eval_string eval_page)
  from C8_transport_failure [where s = "?s" and isRefinement = True and prompt = "''add a phone field''"
      and agent = "?agent" and requestId = "''req-2''" and messageId = "''msg-2-abc''" and fetchErr = "?t"
      and e = default_env, OF 1 2 3 4] 5 6
  show ?thesis by simp
qed

text \<open>
  Three \<open>beginRendering\<close> messages: the second names the first surface again with another
  root, the third another surface.
\<close>

theorem C9_first_begin_rendering_witness:
  "\<exists>sf. A2UIRenderer ([] @ JObj [(''beginRendering'', JObj [(''surfaceId'', JStr ''s1''), (''root'', JStr ''r1'')])]
        # [JObj [(''beginRendering'', JObj [(''surfaceId'', JStr ''s1''), (''root'', JStr ''r9'')])],
           JObj [(''beginRendering'', JObj [(''surfaceId'', JStr ''s2''), (''root'', JStr ''r2'')])]])
       = Mounted (Some (JStr ''s1'')) sf
     \<and> surfaceId sf = ''s1'' \<and> rootComponentId sf = ''r1''"
proof -
  have 1: "\<forall>x\<in>set []. has_beginRendering x = Inr False" by simp
  have 2: "map_of [(''beginRendering'', JObj [(''surfaceId'', JStr ''s1''), (''root'', JStr ''r1'')])]
      ''beginRendering'' = Some (JObj [(''surfaceId'', JStr ''s1''), (''root'', JStr ''r1'')])" by simp
  have 3: "map_of [(''surfaceId'', JStr ''s1''), (''root'', JStr ''r1'')] ''surfaceId'' = Some (JStr ''s1'')"
    by simp
  have 4: "map_of [(''surfaceId'', JStr ''s1''), (''root'', JStr ''r1'')] ''root'' = Some (JStr ''r1'')"
    by simp
  show ?thesis by (rule C9_first_begin_rendering [OF 1 2 3 4])
qed

lemma try_block_success:
  assumes "res_ok res" and "body res = ResultBody msgs t raw" and "msgs \<noteq> []"
  shows "try_block (Resolved res) = Inr (msgs, assistantContent (Some t) msgs)"
  using assms
  by (simp add: try_block_def data_error_def data_messages_def data_text_def truthy_opt_def)

lemma submit_sends:
  assumes "trim prompt \<noteq> []" and "state s \<noteq> thinking"
  shows "snd (submit prompt isRefinement fetch' s)
     = [request_body (trim prompt) (if isRefinement then history s else [])]"
  using assms by (simp add: submit_def Let_def split: sum.split prod.split)

text \<open>
  Claim C4, as amended. A turn succeeds: the response is ok and carries the text \<open>t\<close> and
  the messages \<open>msgs\<close>, which are not empty and are values that \<open>JSON.parse\<close> returns. The
  thread becomes the history sent with the request (the thread before for a refinement, the
  empty thread otherwise) followed by a user turn with the trimmed prompt and an assistant
  turn whose content is the JSON text of the list \<open>msgs\<close>, preceded by \<open>t\<close>, a line feed,
  the delimiter and a line feed when \<open>t\<close> is not empty, and by nothing when it is. That
  JSON text parses back to the list \<open>msgs\<close>. The next refinement sends one request, whose
  \<open>history\<close> is this thread, and the route that forwards the thread places it in the
  payload for the agent under \<open>params.message.metadata.conversationHistory\<close>.
\<close>

theorem C4_thread_carries_messages:
  assumes "trim prompt \<noteq> []" and "state s \<noteq> thinking"
    and "fetch' (request_body (trim prompt) (if isRefinement then history s else [])) = Resolved res"
    and "res_ok res" and "body res = ResultBody msgs t raw" and "msgs \<noteq> []"
    and "list_all wf_json msgs" and "trim next \<noteq> []"
  shows "history (fst (submit prompt isRefinement fetch' s))
       = (if isRefinement then history s else [])
         @ [\<lparr>role = user, content = trim prompt\<rparr>,
            \<lparr>role = assistant,
             content = (if t = [] then [] else t @ [CHR 0x0A] @ delimiter @ [CHR 0x0A])
                       @ JSON_stringify (JArr msgs)\<rparr>]
     \<and> JSON_parse (JSON_stringify (JArr msgs)) = Inr (JArr msgs)
     \<and> snd (submit next True fetch2 (fst (submit prompt isRefinement fetch' s)))
       = [request_body (trim next) (history (fst (submit prompt isRefinement fetch' s)))]
     \<and> path_get (rpcPayload_history requestId messageId (trim next)
           (map_of (request_body (trim next) (history (fst (submit prompt isRefinement fetch' s))))
              ''history''))
          [''params'', ''message'', ''metadata'', ''conversationHistory'']
       = Some (JArr (map turn_json (history (fst (submit prompt isRefinement fetch' s)))))"
proof -
  let ?s' = "fst (submit prompt isRefinement fetch' s)"
  have tb: "try_block (fetch' (request_body (trim prompt) (if isRefinement then history s else [])))
      = Inr (msgs, assistantContent (Some t) msgs)"
    by (simp only: assms(3) try_block_success [OF assms(4-6)])
  have h: "history ?s' = (if isRefinement then history s else [])
         @ [\<lparr>role = user, content = trim prompt\<rparr>,
            \<lparr>role = assistant,
             content = (if t = [] then [] else t @ [CHR 0x0A] @ delimiter @ [CHR 0x0A])
                       @ JSON_stringify (JArr msgs)\<rparr>]"
    using assms(1,2) by (simp add: submit_def Let_def tb assistantContent_def delimiter_def)
  have st: "state ?s' \<noteq> thinking"
    using assms(1,2) by (simp add: submit_def Let_def tb)
  have rt: "JSON_parse (JSON_stringify (JArr msgs)) = Inr (JArr msgs)"
    using assms(7) by (intro JSON_roundtrip) simp
  have sent: "snd (submit next True fetch2 ?s') = [request_body (trim next) (history ?s')]"
    using submit_sends [OF assms(8) st, of True fetch2] by simp
  have pl: "path_get (rpcPayload_history requestId messageId (trim next)
           (map_of (request_body (trim next) (history ?s')) ''history''))
          [''params'', ''message'', ''metadata'', ''conversationHistory'']
       = Some (JArr (map turn_json (history ?s')))"
    by (simp add: rpcPayload_history_def request_body_def)
  from h rt sent pl show ?thesis by blast
qed

text \<open>
  The first turn of a session, answered with the text \<open>Done\<close> and one \<open>beginRendering\<close>
  message.
\<close>

theorem C4_thread_carries_messages_witness:
  \<open>history (fst (submit ''make a form'' False
      (answering (Resolved \<lparr>status = 200,
         body = ResultBody
           [JObj [(''beginRendering'', JObj [(''surfaceId'', JStr ''s1''), (''root'', JStr ''r1'')])]]
           ''Done'' None\<rparr>))
      initial))
     = [\<lparr>role = user, content = ''make a form''\<rparr>,
        \<lparr>role = assistant,
         content = ''Done'' @ [CHR 0x0A] @ ''---a2ui_JSON---'' @ [CHR 0x0A]
                   @ ''[{"beginRendering":{"surfaceId":"s1","root":"r1"}}]''\<rparr>]
   \<and> JSON_parse ''[{"beginRendering":{"surfaceId":"s1","root":"r1"}}]''
     = Inr (JArr [JObj [(''beginRendering'', JObj [(''surfaceId'', JStr ''s1''), (''root'', JStr ''r1'')])]])\<close>
proof -
  let ?msgs = "[JObj [(''beginRendering'', JObj [(''surfaceId'', JStr ''s1''), (''root'', JStr ''r1'')])]]"
  let ?res = "\<lparr>status = 200, body = ResultBody ?msgs ''Done'' None\<rparr>"
  let ?f = "answering (Resolved ?res) :: (string \<times> json) list \<Rightarrow> fetched"
  have 1: "trim ''make a form'' \<noteq> []" by (simp add: eval_string)
  have 2: "state initial \<noteq> thinking" by (simp add: initial_def)
  have 3: "?f (request_body (trim ''make a form'') (if False then history initial else [])) = Resolved ?res"
    by (simp add: answering_def)
  have 4: "res_ok ?res" by (simp add: res_ok_def)
  have 5: "body ?res = ResultBody ?msgs ''Done'' None" by simp
  have 6: "?msgs \<noteq> []" by simp
  have 7: "list_all wf_json ?msgs" by simp
  have 8: "trim ''add a phone field'' \<noteq> []" by (simp add: eval_string)
  have 9: "trim ''make a form'' = ''make a form''" by (simp add: eval_string)
  have 10: \<open>JSON_stringify (JArr ?msgs) = ''[{"beginRendering":{"surfaceId":"s1","root":"r1"}}]''\<close>
    by (simp add: quote_def quote_char_def is_control_def)
  from C4_thread_carries_messages [of "''make a form''" initial ?f False ?res ?msgs "''Done''" None
      "''add a phone field''" ?f "''req-2''" "''msg-2-abc''", OF 1 2 3 4 5 6 7 8]
  show ?thesis by (simp only: 9 10) (simp add: delimiter_def)
qed

text \<open>
  Claim C4 as stated fails on a prompt with white space around it and a response without
  text: the user turn holds the trimmed prompt, not the raw one, and the assistant turn
  holds the JSON text alone, with no delimiter.
\<close>

theorem C4_counterexample:
  "history (fst (submit '' make a form '' False
      (answering (Resolved \<lparr>status = 200, body = ResultBody [JObj []] [] None\<rparr>)) initial))
     = [\<lparr>role = user, content = ''make a form''\<rparr>, \<lparr>role = assistant, content = ''[{}]''\<rparr>]
   \<and> ''make a form'' \<noteq> '' make a form ''
   \<and> \<not> str_includes ''[{}]'' delimiter"
  by (simp add: eval_string eval_page)

end
